theory Spec2Isabelle
  imports Main "HOL-Library.AList" "HOL-Library.List_Lexorder" "HOL-Library.Char_ord"
begin

section \<open>Batch conversion of PNG/JPEG images to WEBP (convert\_images.py)\<close>

text \<open>
  The program is glue over two libraries: pathlib (paths, directory listing, deletion)
  and Pillow (opening, converting and saving images). The embedding keeps the program's
  own control flow as it is written and gives each library call a small explicit model:
  the file system is a state that is passed along, every call that can raise returns a
  sum whose left side is the exception, and the loop over the files is a recursion that
  stops at the first exception.
\<close>

subsection \<open>Strings and paths\<close>

text \<open>
  A Python string is a \<open>string\<close>; a path is the list of its components, outermost
  first, as pathlib's \<open>parts\<close> (an absolute POSIX path starts with the component
  \<open>''/''\<close>). Paths are compared as pathlib compares them: component lists,
  lexicographically, each component by its characters.
\<close>

type_synonym path = "string list"

datatype error =
    ValueError | RuntimeError | OverflowError | FileNotFoundError | IsADirectoryError
  | PermissionError | UnidentifiedImageError | OSError

text \<open>\<open>str.startswith\<close>, \<open>str.endswith\<close> and \<open>str.rfind\<close> for one character.\<close>

definition startswith :: "string \<Rightarrow> string \<Rightarrow> bool" where
  "startswith s pre = (take (length pre) s = pre)"

definition endswith :: "string \<Rightarrow> string \<Rightarrow> bool" where
  "endswith s suf = (length suf \<le> length s \<and> drop (length s - length suf) s = suf)"

definition rfind :: "string \<Rightarrow> char \<Rightarrow> int" where
  "rfind s c =
     (if c \<in> set s
      then int (length s) - 1 - int (length (takeWhile (\<lambda>x. x \<noteq> c) (rev s)))
      else - 1)"

text \<open>
  \<open>PurePath.name\<close>, \<open>PurePath.parent\<close> (the root is its own parent) and the \<open>/\<close>
  operator with one component.
\<close>

definition name :: "path \<Rightarrow> string" where
  "name p = (if p = [] then [] else last p)"

definition is_absolute :: "path \<Rightarrow> bool" where
  "is_absolute p = (case p of [] \<Rightarrow> False | c # cs \<Rightarrow> startswith c ''/'')"

definition parent :: "path \<Rightarrow> path" where
  "parent p = (if length p = 1 \<and> is_absolute p then p else butlast p)"

definition joinpath :: "path \<Rightarrow> string \<Rightarrow> path" where
  "joinpath p n = p @ [n]"

text \<open>
  \<open>PurePath.suffix\<close> and \<open>PurePath.stem\<close>: the last dot splits the name, unless it is
  the first or the last character of the name.
\<close>

definition suffix_of :: "path \<Rightarrow> string" where
  "suffix_of p =
     (let n = name p; i = rfind n (CHR ''.'')
      in if 0 < i \<and> i < int (length n) - 1 then drop (nat i) n else [])"

definition stem :: "path \<Rightarrow> string" where
  "stem p =
     (let n = name p; i = rfind n (CHR ''.'')
      in if 0 < i \<and> i < int (length n) - 1 then take (nat i) n else n)"

text \<open>
  \<open>PurePath.with_suffix\<close>, with its three \<open>ValueError\<close>s: a suffix holding a
  separator, a suffix that does not start with a dot or is only a dot, and a path with
  an empty name.
\<close>

definition with_suffix :: "path \<Rightarrow> string \<Rightarrow> error + path" where
  "with_suffix p suffix =
     (if CHR ''/'' \<in> set suffix then Inl ValueError
      else if (suffix \<noteq> [] \<and> \<not> startswith suffix ''.'') \<or> suffix = ''.'' then Inl ValueError
      else let n = name p in
        if n = [] then Inl ValueError
        else let old_suffix = suffix_of p in
          Inr (butlast p @
            [if old_suffix = [] then n @ suffix
             else take (length n - length old_suffix) n @ suffix]))"

subsection \<open>The file system\<close>

text \<open>
  An image as Pillow presents it: its mode (\<open>''RGB''\<close>, \<open>''RGBA''\<close>, \<open>''P''\<close>,
  \<open>''L''\<close>, \<open>''LA''\<close>, ...), an uninterpreted value for the picture it shows, whether
  its pixel data is cut short (such a file opens, since opening reads the header only,
  and fails when the pixels are loaded), and whether it carries transparency (Pillow's
  \<open>has_transparency_data\<close>: an alpha channel or a transparent palette entry or
  colour).
\<close>

record image =
  mode :: string
  picture :: nat
  truncated :: bool
  has_transparency :: bool

text \<open>
  What a file holds: bytes Pillow does not identify as an image, an image in some
  encoding Pillow reads, or the WEBP encoding of an image with the quality and method it
  was written with. What the codec does to the pixels is outside the model: a WEBP file
  is the record of what was encoded and how.
\<close>

datatype data = Garbage | Picture image | WebP image int nat

datatype node = Dir | File data

text \<open>
  The file system maps full paths to nodes. It is an association list, in the order the
  operating system lists the entries (which is arbitrary); \<open>map_of\<close> looks a path up.
\<close>

type_synonym fs = "(path \<times> node) list"

text \<open>
  What the operating system permits, fixed for the run: reading the status of a path
  (every directory above it can be searched), listing a directory, reading and writing
  a file, removing an entry.
\<close>

record access =
  may_stat :: "path \<Rightarrow> bool"
  may_list :: "path \<Rightarrow> bool"
  may_read :: "path \<Rightarrow> bool"
  may_write :: "path \<Rightarrow> bool"
  may_unlink :: "path \<Rightarrow> bool"

text \<open>
  \<open>Path.is_dir\<close>: false for a path that does not exist; a status that may not be read
  is a \<open>PermissionError\<close>, which \<open>is_dir\<close> does not catch.
\<close>

definition is_dir :: "access \<Rightarrow> fs \<Rightarrow> path \<Rightarrow> error + bool" where
  "is_dir ac fs p =
     (if may_stat ac p then Inr (map_of fs p = Some Dir) else Inl PermissionError)"

text \<open>The entries directly inside a directory, in the operating system's order.\<close>

definition iterdir :: "fs \<Rightarrow> path \<Rightarrow> path list" where
  "iterdir fs root = filter (\<lambda>p. p \<noteq> [] \<and> butlast p = root) (map fst fs)"

text \<open>
  \<open>list(root.glob("*" + ext))\<close>: the entries directly inside \<open>root\<close> whose name ends
  with \<open>ext\<close>, character for character; entries of any kind, hidden ones included.
  The selector first asks \<open>is_dir\<close>, whose error it lets through; a root that is not a
  directory has no entries, and neither has a directory the process may not list (the
  selector catches that \<open>PermissionError\<close> and yields nothing).
\<close>

definition glob_ext :: "access \<Rightarrow> fs \<Rightarrow> path \<Rightarrow> string \<Rightarrow> error + path list" where
  "glob_ext ac fs root ext =
     (case is_dir ac fs root of
        Inl e \<Rightarrow> Inl e
      | Inr d \<Rightarrow>
          if d \<and> may_list ac root
          then Inr (filter (\<lambda>p. endswith (name p) ext) (iterdir fs root))
          else Inr [])"

subsection \<open>Pillow\<close>

text \<open>
  What the WEBP decoder gives back: the picture that was encoded, in mode RGBA when the
  file has an alpha channel and in mode RGB when it has none. The encoder writes an
  alpha channel only for an image that carries transparency and is not in mode RGB.
\<close>

definition webp_decoded :: "image \<Rightarrow> image" where
  "webp_decoded img =
     (let alpha = (has_transparency img \<and> mode img \<noteq> ''RGB'')
      in img\<lparr>mode := (if alpha then ''RGBA'' else ''RGB''), has_transparency := alpha\<rparr>)"

text \<open>
  \<open>Image.open\<close>: opens the file for reading and identifies the image from its content,
  whatever the file is called.
\<close>

definition image_open :: "access \<Rightarrow> fs \<Rightarrow> path \<Rightarrow> error + image" where
  "image_open ac fs p =
     (case map_of fs p of
        None \<Rightarrow> Inl FileNotFoundError
      | Some Dir \<Rightarrow> Inl IsADirectoryError
      | Some (File d) \<Rightarrow>
          if \<not> may_read ac p then Inl PermissionError
          else (case d of
                  Garbage \<Rightarrow> Inl UnidentifiedImageError
                | Picture img \<Rightarrow> Inr img
                | WebP img q m \<Rightarrow> Inr (webp_decoded img)))"

text \<open>
  \<open>Image.convert\<close>: loads the pixels (which fails on a truncated file) and returns the
  same picture in the requested mode; transparency survives only in a mode with an alpha
  channel. The program asks for RGBA and RGB only.
\<close>

definition mode_has_alpha :: "string \<Rightarrow> bool" where
  "mode_has_alpha m = (m \<in> {''RGBA'', ''LA'', ''PA'', ''RGBa'', ''La''})"

definition convert :: "image \<Rightarrow> string \<Rightarrow> error + image" where
  "convert img m =
     (if truncated img then Inl OSError
      else Inr (img\<lparr>mode := m, has_transparency := (has_transparency img \<and> mode_has_alpha m)\<rparr>))"

text \<open>
  Modelled from the spec: the encoder is not part of the repository; the spec gives the
  accepted quality as an integer from 0 to 100.
\<close>

definition webp_quality_ok :: "int \<Rightarrow> bool" where
  "webp_quality_ok q = (0 \<le> q \<and> q \<le> 100)"

text \<open>
  The encoder's compression methods run from 0, the fastest, to 6, the slowest and
  smallest. The number is libwebp's: neither the repository nor its spec give it.
\<close>

definition webp_max_method :: nat where
  "webp_max_method = 6"

text \<open>
  The plugin passes \<open>float(quality)\<close> to the encoder, and Python's conversion raises
  \<open>OverflowError\<close> for an integer that rounds beyond the largest double.
\<close>

definition float_overflows :: "int \<Rightarrow> bool" where
  "float_overflows q = (2 ^ 1024 - 2 ^ 970 \<le> \<bar>q\<bar>)"

text \<open>
  \<open>Image.save(path, format="WEBP", quality, method)\<close>: opens the destination for
  writing, then encodes. Opening fails on a directory and where writing is not
  permitted, and changes nothing. Then the quality is converted to a float, which can
  overflow, and the encoder refuses a quality or a method out of range; by then the
  destination is open: a file that was there is left empty, one that was not there is
  removed again.
\<close>

definition save :: "access \<Rightarrow> fs \<Rightarrow> image \<Rightarrow> path \<Rightarrow> int \<Rightarrow> nat \<Rightarrow> fs \<times> (error + unit)" where
  "save ac fs out p quality method =
     (if map_of fs p = Some Dir then (fs, Inl IsADirectoryError)
      else if \<not> may_write ac p then (fs, Inl PermissionError)
      else if float_overflows quality then
        ((case map_of fs p of None \<Rightarrow> fs | Some _ \<Rightarrow> AList.update p (File Garbage) fs),
         Inl OverflowError)
      else if \<not> webp_quality_ok quality \<or> webp_max_method < method then
        ((case map_of fs p of None \<Rightarrow> fs | Some _ \<Rightarrow> AList.update p (File Garbage) fs),
         Inl ValueError)
      else (AList.update p (File (WebP out quality method)) fs, Inr ()))"

text \<open>\<open>Path.unlink\<close>.\<close>

definition unlink :: "access \<Rightarrow> fs \<Rightarrow> path \<Rightarrow> error + fs" where
  "unlink ac fs p =
     (case map_of fs p of
        None \<Rightarrow> Inl FileNotFoundError
      | Some Dir \<Rightarrow> Inl IsADirectoryError
      | Some (File d) \<Rightarrow>
          if may_unlink ac p then Inr (AList.delete p fs) else Inl PermissionError)"

subsection \<open>convert\_images\_to\_webp\<close>

text \<open>
  Line 26: the three listings, concatenated and sorted; the error of a listing is the
  error of the line.
\<close>

definition source_files :: "access \<Rightarrow> fs \<Rightarrow> path \<Rightarrow> error + path list" where
  "source_files ac fs root =
     (case glob_ext ac fs root ''.png'' of
        Inl e \<Rightarrow> Inl e
      | Inr pngs \<Rightarrow>
     (case glob_ext ac fs root ''.jpg'' of
        Inl e \<Rightarrow> Inl e
      | Inr jpgs \<Rightarrow>
     (case glob_ext ac fs root ''.jpeg'' of
        Inl e \<Rightarrow> Inl e
      | Inr jpegs \<Rightarrow> Inr (sort (pngs @ jpgs @ jpegs)))))"

text \<open>
  Lines 29 to 38, the body of the loop for one source file: the destination path, open,
  convert by mode, save, delete if asked, and the pair to record. The file system is
  returned also when the body raises, as the exception leaves it.
\<close>

definition process_file ::
  "access \<Rightarrow> int \<Rightarrow> bool \<Rightarrow> fs \<Rightarrow> path \<Rightarrow> fs \<times> (error + string \<times> string)" where
  "process_file ac quality delete_original fs source_path =
     (case with_suffix source_path ''.webp'' of
        Inl e \<Rightarrow> (fs, Inl e)
      | Inr webp_path \<Rightarrow>
     (case image_open ac fs source_path of
        Inl e \<Rightarrow> (fs, Inl e)
      | Inr img \<Rightarrow>
     (case (if mode img \<in> {''RGBA'', ''P''} then convert img ''RGBA''
            else convert img ''RGB'') of
        Inl e \<Rightarrow> (fs, Inl e)
      | Inr out \<Rightarrow>
     (case save ac fs out webp_path quality 6 of
        (fs1, Inl e) \<Rightarrow> (fs1, Inl e)
      | (fs1, Inr u) \<Rightarrow>
          if delete_original then
            (case unlink ac fs1 source_path of
               Inl e \<Rightarrow> (fs1, Inl e)
             | Inr fs2 \<Rightarrow> (fs2, Inr (name source_path, name webp_path)))
          else (fs1, Inr (name source_path, name webp_path))))))"

text \<open>Lines 27, 28 and 39: the loop, with the list \<open>converted\<close> it appends to.\<close>

fun convert_loop ::
  "access \<Rightarrow> int \<Rightarrow> bool \<Rightarrow> fs \<Rightarrow> (string \<times> string) list \<Rightarrow> path list
     \<Rightarrow> fs \<times> (error + (string \<times> string) list)" where
  "convert_loop ac quality delete_original fs converted [] = (fs, Inr converted)"
| "convert_loop ac quality delete_original fs converted (source_path # rest) =
     (case process_file ac quality delete_original fs source_path of
        (fs1, Inl e) \<Rightarrow> (fs1, Inl e)
      | (fs1, Inr pair) \<Rightarrow>
          convert_loop ac quality delete_original fs1 (converted @ [pair]) rest)"

definition convert_images_to_webp ::
  "access \<Rightarrow> fs \<Rightarrow> path \<Rightarrow> int \<Rightarrow> bool \<Rightarrow> fs \<times> (error + (string \<times> string) list)" where
  "convert_images_to_webp ac fs root quality delete_original =
     (case source_files ac fs root of
        Inl e \<Rightarrow> (fs, Inl e)
      | Inr files \<Rightarrow> convert_loop ac quality delete_original fs [] files)"

subsection \<open>resolve\_root and main\<close>

text \<open>
  \<open>Path(s)\<close> on POSIX: the string is split at its slashes, empty components and
  \<open>.\<close> are dropped, and leading slashes become the root component (exactly two
  leading slashes are kept as the root \<open>//\<close>).
\<close>

fun components :: "string \<Rightarrow> string list" where
  "components [] = [ [] ]"
| "components (c # cs) =
     (if c = CHR ''/'' then [] # components cs
      else (case components cs of [] \<Rightarrow> [ [c] ] | x # xs \<Rightarrow> (c # x) # xs))"

definition posix_path :: "string \<Rightarrow> path" where
  "posix_path s =
     (let slashes = length (takeWhile (\<lambda>c. c = CHR ''/'') s)
      in (if slashes = 0 then [] else if slashes = 2 then [''//''] else [''/'']) @
         filter (\<lambda>c. c \<noteq> [] \<and> c \<noteq> ''.'') (components s))"

text \<open>
  What of the machine the two pathlib calls depend on: the home directory of a user
  name (the empty name is the current user; \<open>None\<close> when it cannot be determined), the
  working directory, which paths are symbolic links, \<open>Path.resolve\<close> itself, and the
  program's own \<open>__file__\<close>.
\<close>

record machine =
  home_of :: "string \<Rightarrow> string option"
  cwd :: path
  symlink :: "path \<Rightarrow> bool"
  resolve :: "path \<Rightarrow> error + path"
  program_file :: string

text \<open>
  \<open>Path.expanduser\<close>: a relative path whose first component starts with \<open>~\<close> has that
  component replaced by the home directory of the user it names, parsed as a path (a
  home of slashes only is the root); a home that cannot be determined is a
  \<open>RuntimeError\<close>. Any other path is returned as it is.
\<close>

definition expanduser :: "machine \<Rightarrow> path \<Rightarrow> error + path" where
  "expanduser m p =
     (case p of
        [] \<Rightarrow> Inr p
      | c # cs \<Rightarrow>
          if startswith c ''~'' then
            (case home_of m (drop 1 c) of
               None \<Rightarrow> Inl RuntimeError
             | Some h \<Rightarrow>
                 if startswith h ''~'' then Inl RuntimeError
                 else Inr (posix_path (if list_all (\<lambda>x. x = CHR ''/'') h then ''/'' else h) @ cs))
          else Inr p)"

text \<open>
  Lines 17 to 20. \<open>if root_arg:\<close> is Python's truth test: \<open>None\<close> and the empty
  string are both false.
\<close>

definition resolve_root :: "machine \<Rightarrow> string option \<Rightarrow> error + path" where
  "resolve_root m root_arg =
     (if root_arg \<noteq> None \<and> root_arg \<noteq> Some []
      then (case expanduser m (posix_path (the root_arg)) of
              Inl e \<Rightarrow> Inl e
            | Inr p \<Rightarrow> resolve m p)
      else (case resolve m (posix_path (program_file m)) of
              Inl e \<Rightarrow> Inl e
            | Inr f \<Rightarrow> resolve m (joinpath (parent f) ''images'')))"

text \<open>
  Lines 5 to 14: what \<open>parse_args\<close> returns, the values of \<open>--root\<close>, \<open>--quality\<close>
  and \<open>--delete-original\<close>, and its defaults. The quality is any integer: the parser
  has no bounds for it.
\<close>

record args =
  root :: "string option"
  quality :: int
  delete_original :: bool

definition default_args :: args where
  "default_args = \<lparr>root = None, quality = 82, delete_original = False\<rparr>"

text \<open>Python's \<open>str\<close> of a natural number: its decimal digits.\<close>

fun str_nat :: "nat \<Rightarrow> string" where
  "str_nat n =
     (if n < 10 then [''0123456789'' ! n]
      else str_nat (n div 10) @ [''0123456789'' ! (n mod 10)])"

declare str_nat.simps [simp del]

definition print_line :: "string \<times> string \<Rightarrow> string" where
  "print_line pair = fst pair @ '' -> '' @ snd pair"

text \<open>
  Lines 42 to 48. Standard output is the list of the lines printed; nothing is printed
  when the converter raises.
\<close>

definition main :: "machine \<Rightarrow> access \<Rightarrow> fs \<Rightarrow> args \<Rightarrow> fs \<times> (error + string list)" where
  "main m ac fs a =
     (case resolve_root m (root a) of
        Inl e \<Rightarrow> (fs, Inl e)
      | Inr r \<Rightarrow>
     (case convert_images_to_webp ac fs r (quality a) (delete_original a) of
        (fs1, Inl e) \<Rightarrow> (fs1, Inl e)
      | (fs1, Inr converted) \<Rightarrow>
          (fs1, Inr (map print_line converted @
                     [''converted: '' @ str_nat (length converted)]))))"

subsection \<open>Notions used to state the properties\<close>

text \<open>
  The destination the loop body computes for a source path with a name: the sibling with
  the same stem and the extension \<open>.webp\<close> (lemma \<open>with_suffix_webp\<close> shows it is
  what \<open>with_suffix\<close> returns).
\<close>

definition dest_of :: "path \<Rightarrow> path" where
  "dest_of p = butlast p @ [stem p @ ''.webp'']"

text \<open>The pair the loop records for a source path.\<close>

definition pair_of :: "path \<Rightarrow> string \<times> string" where
  "pair_of p = (name p, stem p @ ''.webp'')"

text \<open>A name one of the three patterns of line 26 matches.\<close>

definition has_image_ext :: "string \<Rightarrow> bool" where
  "has_image_ext n = (endswith n ''.png'' \<or> endswith n ''.jpg'' \<or> endswith n ''.jpeg'')"

text \<open>
  The entries of a directory the three patterns match, sorted: what line 26 returns
  for a directory the process may list (lemma \<open>source_files_cases\<close>).
\<close>

definition matching :: "fs \<Rightarrow> path \<Rightarrow> path list" where
  "matching fs dir =
     sort (filter (\<lambda>p. endswith (name p) ''.png'') (iterdir fs dir) @
           filter (\<lambda>p. endswith (name p) ''.jpg'') (iterdir fs dir) @
           filter (\<lambda>p. endswith (name p) ''.jpeg'') (iterdir fs dir))"

text \<open>The image the loop body saves for an opened image, and the file it writes.\<close>

definition converted :: "image \<Rightarrow> image" where
  "converted img =
     (if mode img = ''RGBA'' \<or> mode img = ''P'' then img\<lparr>mode := ''RGBA''\<rparr>
      else img\<lparr>mode := ''RGB'', has_transparency := False\<rparr>)"

definition webp_file :: "image \<Rightarrow> int \<Rightarrow> node" where
  "webp_file img q = File (WebP (converted img) q 6)"


text \<open>The value of a string of decimal digits, to say what \<open>str_nat\<close> prints.\<close>

definition decimal_value :: "string \<Rightarrow> nat" where
  "decimal_value s = foldl (\<lambda>a c. 10 * a + (of_char c - 48)) 0 s"

text \<open>
  What pathlib documents of \<open>resolve\<close>, as a condition on a machine. \<open>collapse\<close> is
  the lexical part: \<open>.\<close> is dropped and \<open>..\<close> removes the component before it, the
  root being its own parent. A path is normalised when it is absolute, has no \<open>.\<close> or
  \<open>..\<close> and no symbolic link at any of its prefixes. A machine is \<open>resolve_ok\<close> when
  its \<open>resolve\<close> returns normalised paths only, and on a path whose walk from the
  working directory meets no symbolic link returns the lexical collapse.
\<close>

fun collapse :: "path \<Rightarrow> path \<Rightarrow> path" where
  "collapse acc [] = acc"
| "collapse acc (c # cs) =
     (if c = ''.'' then collapse acc cs
      else if c = ''..'' then collapse (if length acc \<le> 1 then acc else butlast acc) cs
      else collapse (acc @ [c]) cs)"





subsection \<open>Example machines\<close>

text \<open>
  An operating system that permits everything, and three that refuse one thing: listing
  the images directory, reading the status of a path, removing an entry.
\<close>

definition allow_all :: access where
  "allow_all =
     \<lparr>may_stat = (\<lambda>p. True), may_list = (\<lambda>p. True), may_read = (\<lambda>p. True),
      may_write = (\<lambda>p. True), may_unlink = (\<lambda>p. True)\<rparr>"

definition images_dir :: path where
  "images_dir = [''/'', ''srv'', ''images'']"

definition no_list :: access where
  "no_list = allow_all\<lparr>may_list := (\<lambda>p. p \<noteq> images_dir)\<rparr>"


definition no_unlink :: access where
  "no_unlink = allow_all\<lparr>may_unlink := (\<lambda>p. False)\<rparr>"

text \<open>
  An intact picture of a given mode; the modes RGBA, LA and P are given transparency.
\<close>

definition pic :: "string \<Rightarrow> nat \<Rightarrow> node" where
  "pic m k =
     File (Picture \<lparr>mode = m, picture = k, truncated = False,
                    has_transparency = (m \<in> {''RGBA'', ''LA'', ''P''})\<rparr>)"

text \<open>The directory of the spec's scenario: \<open>a.png\<close>, \<open>b.jpg\<close>, \<open>c.jpeg\<close>.\<close>

definition fs_abc :: fs where
  "fs_abc =
     [([''/''], Dir), ([''/'', ''srv''], Dir), (images_dir, Dir),
      (images_dir @ [''c.jpeg''], pic ''L'' 3),
      (images_dir @ [''a.png''], pic ''P'' 1),
      (images_dir @ [''b.jpg''], pic ''LA'' 2)]"

text \<open>
  The same with a GIF, an upper-case extension, a subdirectory and a file inside it.
\<close>

definition fs_mixed :: fs where
  "fs_mixed =
     [([''/''], Dir), ([''/'', ''srv''], Dir), (images_dir, Dir),
      (images_dir @ [''c.jpeg''], pic ''L'' 3),
      (images_dir @ [''notes.gif''], pic ''P'' 4),
      (images_dir @ [''B.PNG''], pic ''RGB'' 5),
      (images_dir @ [''a.png''], pic ''P'' 1),
      (images_dir @ [''sub''], Dir),
      (images_dir @ [''sub'', ''z.png''], pic ''RGB'' 7),
      (images_dir @ [''b.jpg''], pic ''LA'' 2)]"

text \<open>The scenario's directory with \<open>b.jpg\<close> holding bytes that are no image.\<close>

definition fs_bad :: fs where
  "fs_bad =
     [([''/''], Dir), ([''/'', ''srv''], Dir), (images_dir, Dir),
      (images_dir @ [''c.jpeg''], pic ''L'' 3),
      (images_dir @ [''a.png''], pic ''P'' 1),
      (images_dir @ [''b.jpg''], File Garbage)]"

text \<open>An empty directory, and one where three sources share the stem \<open>a\<close>.\<close>

definition fs_empty :: fs where
  "fs_empty = [([''/''], Dir), ([''/'', ''srv''], Dir), (images_dir, Dir)]"

definition fs_twins :: fs where
  "fs_twins =
     [([''/''], Dir), ([''/'', ''srv''], Dir), (images_dir, Dir),
      (images_dir @ [''a.png''], pic ''RGBA'' 1),
      (images_dir @ [''a.jpeg''], pic ''L'' 3),
      (images_dir @ [''a.jpg''], pic ''RGB'' 2)]"

text \<open>
  A machine without symbolic links: \<open>resolve\<close> is the lexical collapse from the
  working directory. The example has the home \<open>/home/u\<close>, the working directory
  \<open>/tmp\<close> and the program \<open>/opt/app/convert_images.py\<close>.
\<close>

definition plain_machine :: "string \<Rightarrow> path \<Rightarrow> string \<Rightarrow> machine" where
  "plain_machine home dir file =
     \<lparr>home_of = (\<lambda>u. if u = [] then Some home else None),
      cwd = dir,
      symlink = (\<lambda>p. False),
      resolve = (\<lambda>p. Inr (collapse [] (if is_absolute p then p else dir @ p))),
      program_file = file\<rparr>"

definition ex_machine :: machine where
  "ex_machine = plain_machine ''/home/u'' [''/'', ''tmp''] ''/opt/app/convert_images.py''"

section \<open>Lemmas\<close>

subsection \<open>Names, suffixes and destinations\<close>

lemma name_snoc: "name (p @ [n]) = n"
  by (simp add: name_def)

lemma name_dest_of: "name (dest_of p) = stem p @ ''.webp''"
  by (simp add: dest_of_def name_snoc)

lemma rfind_bounds: "- 1 \<le> rfind s c \<and> rfind s c < int (length s)"
proof -
  have "length (takeWhile (\<lambda>x. x \<noteq> c) (rev s)) \<le> length s"
    using length_takeWhile_le [of "\<lambda>x. x \<noteq> c" "rev s"] by simp
  then show ?thesis
    by (auto simp: rfind_def)
qed

lemma with_suffix_webp:
  "with_suffix p ''.webp'' = (if name p = [] then Inl ValueError else Inr (dest_of p))"
proof (cases "name p = []")
  case True
  then show ?thesis by (simp add: with_suffix_def startswith_def)
next
  case False
  define n where "n = name p"
  define i where "i = rfind n (CHR ''.'')"
  have ib: "i < int (length n)" using rfind_bounds [of n "CHR ''.''"] by (simp add: i_def)
  show ?thesis
  proof (cases "0 < i \<and> i < int (length n) - 1")
    case True
    then have "suffix_of p = drop (nat i) n" "stem p = take (nat i) n"
      by (simp_all add: suffix_of_def stem_def Let_def n_def i_def)
    moreover have "drop (nat i) n \<noteq> []" using True by (simp add: not_le) linarith
    moreover have "length n - length (drop (nat i) n) = nat i" using True by simp linarith
    ultimately show ?thesis using False
      by (simp add: with_suffix_def startswith_def dest_of_def Let_def n_def)
  next
    case F2: False
    then have "suffix_of p = []" "stem p = n"
      by (auto simp add: suffix_of_def stem_def Let_def n_def i_def)
    then show ?thesis using False
      by (simp add: with_suffix_def startswith_def dest_of_def Let_def n_def)
  qed
qed

lemma endswith_last: "endswith s (t @ [c]) \<Longrightarrow> s \<noteq> [] \<and> last s = c"
proof -
  assume a: "endswith s (t @ [c])"
  then have l: "length (t @ [c]) \<le> length s" and d: "drop (length s - length (t @ [c])) s = t @ [c]"
    by (simp_all add: endswith_def)
  from l have ne: "s \<noteq> []" by auto
  have "s = take (length s - length (t @ [c])) s @ (t @ [c])"
    using d append_take_drop_id [of "length s - length (t @ [c])" s] by simp
  then have "last s = last (take (length s - length (t @ [c])) s @ (t @ [c]))" by simp
  then have "last s = c" by (simp del: append_assoc)
  with ne show ?thesis by simp
qed

lemma has_image_ext_last: "has_image_ext n \<Longrightarrow> n \<noteq> [] \<and> last n = CHR ''g''"
  using endswith_last [of n "''.pn''" "CHR ''g''"] endswith_last [of n "''.jp''" "CHR ''g''"]
    endswith_last [of n "''.jpe''" "CHR ''g''"]
  by (auto simp: has_image_ext_def)

lemma dest_not_image: "\<not> has_image_ext (name (dest_of p))"
  using has_image_ext_last [of "name (dest_of p)"] by (auto simp: name_dest_of)

lemma endswith_append: "endswith (x @ e) e"
  by (simp add: endswith_def)

lemma rfind_ext: "CHR ''.'' \<notin> set e \<Longrightarrow> rfind (x @ CHR ''.'' # e) (CHR ''.'') = int (length x)"
proof -
  assume a: "CHR ''.'' \<notin> set e"
  have "takeWhile (\<lambda>c. c \<noteq> CHR ''.'') (rev e @ CHR ''.'' # rev x) = rev e"
    using a by (auto simp add: takeWhile_tail)
  then show ?thesis by (simp add: rfind_def)
qed

lemma stem_ext:
  assumes "x \<noteq> []" "CHR ''.'' \<notin> set e" "e \<noteq> []" "name p = x @ CHR ''.'' # e"
  shows "stem p = x"
  using assms rfind_ext [of e x] by (simp add: stem_def Let_def)

lemma name_stem_suffix: "name p = stem p @ suffix_of p"
  by (simp add: stem_def suffix_of_def Let_def)

lemma dest_of_eq: "butlast s = butlast t \<Longrightarrow> (dest_of s = dest_of t) = (stem s = stem t)"
  by (simp add: dest_of_def)

subsection \<open>One pass of the loop body\<close>

lemma convert_by_mode:
  "(if mode img = ''RGBA'' \<or> mode img = ''P'' then convert img ''RGBA'' else convert img ''RGB'') =
     (if truncated img then Inl OSError
      else Inr (converted img))"
  by (simp add: convert_def converted_def mode_has_alpha_def)

lemma quality_ok_float: "webp_quality_ok q \<Longrightarrow> \<not> float_overflows q"
proof -
  assume "webp_quality_ok q"
  then have "\<bar>q\<bar> \<le> 100" by (simp add: webp_quality_ok_def)
  moreover have "(100 :: int) < 2 ^ 1024 - 2 ^ 970" by simp
  ultimately show ?thesis by (simp add: float_overflows_def)
qed

lemma save_Inr:
  "save ac fs out d q 6 = (fs1, Inr u) \<longleftrightarrow>
     map_of fs d \<noteq> Some Dir \<and> may_write ac d \<and> webp_quality_ok q \<and>
     fs1 = AList.update d (File (WebP out q 6)) fs"
  using quality_ok_float [of q] by (auto simp: save_def webp_max_method_def)

lemma save_Inl:
  "save ac fs out d q 6 = (fs1, Inl e) \<Longrightarrow>
     (\<forall>x. x \<noteq> d \<longrightarrow> map_of fs1 x = map_of fs x) \<and>
     (webp_quality_ok q \<longrightarrow> fs1 = fs) \<and>
     (map_of fs1 d = map_of fs d \<or> map_of fs1 d = Some (File Garbage))"
  using quality_ok_float [of q]
  by (auto simp: save_def webp_max_method_def update_conv' split: if_splits option.splits)


lemma unlink_Inr:
  "unlink ac fs p = Inr fs2 \<longleftrightarrow>
     (\<exists>d. map_of fs p = Some (File d)) \<and> may_unlink ac p \<and> fs2 = AList.delete p fs"
  by (auto simp: unlink_def split: option.splits node.splits)

lemma process_file_ok:
  assumes "process_file ac q del fs p = (fs', Inr pr)"
  shows "\<exists>img. name p \<noteq> [] \<and> image_open ac fs p = Inr img \<and> \<not> truncated img \<and>
           webp_quality_ok q \<and> map_of fs (dest_of p) \<noteq> Some Dir \<and> may_write ac (dest_of p) \<and>
           (del \<longrightarrow> may_unlink ac p) \<and>
           pr = (name p, stem p @ ''.webp'') \<and>
           map_of fs' = (if del then ((map_of fs)(dest_of p \<mapsto> webp_file img q))(p := None)
                         else (map_of fs)(dest_of p \<mapsto> webp_file img q))"
proof -
  from assms have n: "name p \<noteq> []"
    by (auto simp: process_file_def with_suffix_webp split: if_splits)
  from assms n obtain img where o: "image_open ac fs p = Inr img"
    by (cases "image_open ac fs p") (auto simp: process_file_def with_suffix_webp)
  from assms n o have t: "\<not> truncated img"
    by (auto simp: process_file_def with_suffix_webp convert_by_mode split: if_splits)
  define out where
    "out = converted img"
  obtain fs1 r where s: "save ac fs out (dest_of p) q 6 = (fs1, r)"
    by (cases "save ac fs out (dest_of p) q 6") auto
  from assms n o t s have r: "r = Inr ()"
    by (cases r) (auto simp: process_file_def with_suffix_webp convert_by_mode out_def)
  from s r have sv: "map_of fs (dest_of p) \<noteq> Some Dir" "may_write ac (dest_of p)"
    "webp_quality_ok q" "fs1 = AList.update (dest_of p) (File (WebP out q 6)) fs"
    by (simp_all add: save_Inr)
  from assms n o t s r have rest:
    "(if del then (case unlink ac fs1 p of Inl e \<Rightarrow> (fs1, Inl e)
                   | Inr fs2 \<Rightarrow> (fs2, Inr (name p, name (dest_of p))))
      else (fs1, Inr (name p, name (dest_of p)))) = (fs', Inr pr)"
    by (simp add: process_file_def with_suffix_webp convert_by_mode out_def [symmetric])
  have w: "File (WebP out q 6) = webp_file img q" by (simp add: webp_file_def out_def)
  show ?thesis
  proof (cases del)
    case False
    with rest have "fs' = fs1" "pr = (name p, name (dest_of p))" by simp_all
    with n o t sv False w show ?thesis by (simp add: name_dest_of update_conv')
  next
    case True
    with rest obtain fs2 where u: "unlink ac fs1 p = Inr fs2" and e: "fs' = fs2"
      "pr = (name p, name (dest_of p))"
      by (cases "unlink ac fs1 p") auto
    from u have "may_unlink ac p" "fs2 = AList.delete p fs1" by (simp_all add: unlink_Inr)
    with n o t sv True w e show ?thesis by (simp add: name_dest_of update_conv' delete_conv')
  qed
qed


lemma process_file_fail:
  assumes "process_file ac q del fs p = (fs', Inl e)"
  shows "(\<forall>x. x \<noteq> dest_of p \<longrightarrow> map_of fs' x = map_of fs x) \<and>
         (map_of fs' (dest_of p) = map_of fs (dest_of p) \<or>
          map_of fs' (dest_of p) = Some (File Garbage) \<and> \<not> webp_quality_ok q \<or>
          (\<exists>img. map_of fs' (dest_of p) = Some (File (WebP img q 6))))"
proof (cases "name p = []")
  case True
  with assms show ?thesis by (simp add: process_file_def with_suffix_webp)
next
  case n: False
  show ?thesis
  proof (cases "image_open ac fs p")
    case (Inl a)
    with assms n show ?thesis by (simp add: process_file_def with_suffix_webp)
  next
    case (Inr img)
    show ?thesis
    proof (cases "truncated img")
      case True
      with assms n Inr show ?thesis
        by (simp add: process_file_def with_suffix_webp convert_by_mode)
    next
      case t: False
      define out where
        "out = converted img"
      obtain fs1 r where s: "save ac fs out (dest_of p) q 6 = (fs1, r)"
        by (cases "save ac fs out (dest_of p) q 6") auto
      show ?thesis
      proof (cases r)
        case (Inl a)
        with assms n Inr t s have "fs' = fs1"
          by (simp add: process_file_def with_suffix_webp convert_by_mode out_def [symmetric])
        with s Inl save_Inl [of ac fs out "dest_of p" q fs1 a] show ?thesis by auto
      next
        case r: (Inr u)
        with s have fs1: "fs1 = AList.update (dest_of p) (File (WebP out q 6)) fs"
          by (simp add: save_Inr)
        from assms n Inr t s r have "del \<and> fs' = fs1"
          by (auto simp add: process_file_def with_suffix_webp convert_by_mode
              out_def [symmetric] split: if_splits sum.splits)
        with fs1 show ?thesis by (auto simp: update_conv')
      qed
    qed
  qed
qed

subsection \<open>The loop\<close>

lemma image_ext_not_dest: "has_image_ext (name s) \<Longrightarrow> s \<noteq> dest_of p"
  using dest_not_image [of p] by auto

lemma image_open_cong: "map_of fs1 p = map_of fs p \<Longrightarrow> image_open ac fs1 p = image_open ac fs p"
  by (simp add: image_open_def)

lemma loop_append:
  "convert_loop ac q del fs acc (xs @ ys) =
     (case convert_loop ac q del fs acc xs of
        (fs1, Inl e) \<Rightarrow> (fs1, Inl e)
      | (fs1, Inr a) \<Rightarrow> convert_loop ac q del fs1 a ys)"
  by (induction xs arbitrary: fs acc) (auto split: prod.splits sum.splits)

lemma loop_result:
  "convert_loop ac q del fs acc ps = (fs', Inr res) \<Longrightarrow> res = acc @ map pair_of ps"
proof (induction ps arbitrary: fs acc)
  case Nil
  then show ?case by simp
next
  case (Cons p ps)
  obtain fs1 r where s: "process_file ac q del fs p = (fs1, r)"
    by (cases "process_file ac q del fs p") auto
  show ?case
  proof (cases r)
    case (Inl e)
    with s Cons.prems show ?thesis by simp
  next
    case (Inr pr)
    with s process_file_ok [of ac q del fs p fs1 pr] have "pr = pair_of p"
      by (auto simp: pair_of_def)
    moreover from s Inr Cons.prems
    have "convert_loop ac q del fs1 (acc @ [pr]) ps = (fs', Inr res)" by simp
    ultimately show ?thesis using Cons.IH by fastforce
  qed
qed

lemma loop_quality:
  "convert_loop ac q del fs acc ps = (fs', Inr res) \<Longrightarrow> ps \<noteq> [] \<Longrightarrow> webp_quality_ok q"
proof (cases ps)
  case Nil
  assume "ps \<noteq> []"
  with Nil show ?thesis by simp
next
  case (Cons p rest)
  assume a: "convert_loop ac q del fs acc ps = (fs', Inr res)"
  obtain fs1 r where s: "process_file ac q del fs p = (fs1, r)"
    by (cases "process_file ac q del fs p") auto
  with a Cons obtain pr where "r = Inr pr" by (cases r) auto
  with s process_file_ok [of ac q del fs p fs1 pr] show ?thesis by auto
qed

text \<open>A path that is no destination changes only by being deleted as a source.\<close>

lemma loop_frame:
  "convert_loop ac q del fs acc ps = (fs', r) \<Longrightarrow> x \<notin> dest_of ` set ps \<Longrightarrow>
     map_of fs' x = map_of fs x \<or> (del \<and> x \<in> set ps \<and> map_of fs' x = None)"
proof (induction ps arbitrary: fs acc)
  case Nil
  then show ?case by simp
next
  case (Cons p ps)
  from Cons.prems(2) have xd: "x \<noteq> dest_of p" and xr: "x \<notin> dest_of ` set ps" by auto
  obtain fs1 r1 where s: "process_file ac q del fs p = (fs1, r1)"
    by (cases "process_file ac q del fs p") auto
  show ?case
  proof (cases r1)
    case (Inl e)
    with s Cons.prems(1) have "fs' = fs1" by simp
    with s Inl process_file_fail [of ac q del fs p fs1 e] xd show ?thesis by simp
  next
    case (Inr pr)
    with s Cons.prems(1)
    have l: "convert_loop ac q del fs1 (acc @ [pr]) ps = (fs', r)" by simp
    from s Inr process_file_ok [of ac q del fs p fs1 pr] xd
    have h: "map_of fs1 x = map_of fs x \<or> (del \<and> x = p \<and> map_of fs1 x = None)"
      by (auto split: if_splits)
    from Cons.IH [OF l xr] h show ?thesis by auto
  qed
qed

text \<open>Whatever changes stays or becomes a file, or is a deleted source.\<close>

lemma loop_change:
  "convert_loop ac q del fs acc ps = (fs', r) \<Longrightarrow>
     map_of fs' x = map_of fs x \<or> (\<exists>d. map_of fs' x = Some (File d)) \<or>
     (del \<and> x \<in> set ps \<and> map_of fs' x = None)"
proof (induction ps arbitrary: fs acc)
  case Nil
  then show ?case by simp
next
  case (Cons p ps)
  obtain fs1 r1 where s: "process_file ac q del fs p = (fs1, r1)"
    by (cases "process_file ac q del fs p") auto
  show ?case
  proof (cases r1)
    case (Inl e)
    with s Cons.prems(1) have "fs' = fs1" by simp
    with s Inl process_file_fail [of ac q del fs p fs1 e] show ?thesis
      by (cases "x = dest_of p") auto
  next
    case (Inr pr)
    with s Cons.prems(1)
    have l: "convert_loop ac q del fs1 (acc @ [pr]) ps = (fs', r)" by simp
    from s Inr process_file_ok [of ac q del fs p fs1 pr]
    have h: "map_of fs1 x = map_of fs x \<or> (\<exists>d. map_of fs1 x = Some (File d)) \<or>
             (del \<and> x = p \<and> map_of fs1 x = None)"
      by (auto simp: webp_file_def split: if_splits)
    from Cons.IH [OF l] h show ?thesis by auto
  qed
qed

text \<open>A WEBP file written with this quality stays one, unless it is a source that is deleted.\<close>

lemma loop_keeps_webp:
  "convert_loop ac q del fs acc ps = (fs', r) \<Longrightarrow> webp_quality_ok q \<Longrightarrow> x \<notin> set ps \<Longrightarrow>
     \<exists>img. map_of fs x = Some (File (WebP img q 6)) \<Longrightarrow>
     \<exists>img. map_of fs' x = Some (File (WebP img q 6))"
proof (induction ps arbitrary: fs acc)
  case Nil
  then show ?case by simp
next
  case (Cons p ps)
  from Cons.prems(3) have xp: "x \<noteq> p" and xr: "x \<notin> set ps" by auto
  obtain fs1 r1 where s: "process_file ac q del fs p = (fs1, r1)"
    by (cases "process_file ac q del fs p") auto
  show ?case
  proof (cases r1)
    case (Inl e)
    with s Cons.prems(1) have "fs' = fs1" by simp
    with s Inl process_file_fail [of ac q del fs p fs1 e] Cons.prems(2,4) show ?thesis
      by (cases "x = dest_of p") auto
  next
    case (Inr pr)
    with s Cons.prems(1)
    have l: "convert_loop ac q del fs1 (acc @ [pr]) ps = (fs', r)" by simp
    from s Inr process_file_ok [of ac q del fs p fs1 pr] xp Cons.prems(4)
    have h: "\<exists>img. map_of fs1 x = Some (File (WebP img q 6))"
      by (cases "x = dest_of p") (auto simp: webp_file_def split: if_splits)
    from Cons.IH [OF l Cons.prems(2) xr h] show ?thesis .
  qed
qed

lemma loop_success:
  "convert_loop ac q del fs acc ps = (fs', Inr res) \<Longrightarrow>
   \<forall>s\<in>set ps. has_image_ext (name s) \<Longrightarrow> s \<in> set ps \<Longrightarrow>
     (\<exists>img. map_of fs' (dest_of s) = Some (File (WebP img q 6))) \<and>
     map_of fs' s = (if del then None else map_of fs s)"
proof (induction ps arbitrary: fs acc)
  case Nil
  then show ?case by simp
next
  case (Cons p ps)
  obtain fs1 r1 where st: "process_file ac q del fs p = (fs1, r1)"
    by (cases "process_file ac q del fs p") auto
  with Cons.prems(1) obtain pr where r1: "r1 = Inr pr" by (cases r1) auto
  with st Cons.prems(1)
  have l: "convert_loop ac q del fs1 (acc @ [pr]) ps = (fs', Inr res)" by simp
  from Cons.prems(2) have ip: "has_image_ext (name p)" and ir: "\<forall>s\<in>set ps. has_image_ext (name s)"
    by auto
  from st r1 process_file_ok [of ac q del fs p fs1 pr] obtain img where
    qok: "webp_quality_ok q" and
    m1: "map_of fs1 = (if del then ((map_of fs)(dest_of p \<mapsto> webp_file img q))(p := None)
                       else (map_of fs)(dest_of p \<mapsto> webp_file img q))"
    by auto
  have pd: "p \<noteq> dest_of p" using ip image_ext_not_dest by blast
  have sd: "s \<noteq> dest_of p" using Cons.prems(2,3) image_ext_not_dest by blast
  show ?case
  proof (cases "s \<in> set ps")
    case True
    from Cons.IH [OF l ir True]
    have d: "\<exists>img. map_of fs' (dest_of s) = Some (File (WebP img q 6))"
      and s: "map_of fs' s = (if del then None else map_of fs1 s)" by auto
    from s m1 sd have "map_of fs' s = (if del then None else map_of fs s)" by auto
    with d show ?thesis by simp
  next
    case False
    with Cons.prems(3) have sp: "s = p" by simp
    have "dest_of p \<notin> set ps" using ir image_ext_not_dest by blast
    moreover have "\<exists>i. map_of fs1 (dest_of p) = Some (File (WebP i q 6))"
      using m1 pd by (auto simp: webp_file_def)
    ultimately have d: "\<exists>i. map_of fs' (dest_of p) = Some (File (WebP i q 6))"
      using loop_keeps_webp [OF l qok] by blast
    have "p \<notin> dest_of ` set ps" using ip image_ext_not_dest by blast
    from loop_frame [OF l this] False sp
    have "map_of fs' p = map_of fs1 p" by auto
    with m1 pd have "map_of fs' p = (if del then None else map_of fs p)" by auto
    with d sp show ?thesis by simp
  qed
qed

lemma loop_abort_split:
  "convert_loop ac q del fs acc ps = (fs', Inl e) \<Longrightarrow>
     \<exists>pre p post fsk. ps = pre @ p # post \<and>
       convert_loop ac q del fs acc pre = (fsk, Inr (acc @ map pair_of pre)) \<and>
       process_file ac q del fsk p = (fs', Inl e)"
proof (induction ps arbitrary: fs acc)
  case Nil
  then show ?case by simp
next
  case (Cons p ps)
  obtain fs1 r1 where st: "process_file ac q del fs p = (fs1, r1)"
    by (cases "process_file ac q del fs p") auto
  show ?case
  proof (cases r1)
    case (Inl e1)
    with st Cons.prems have "process_file ac q del fs p = (fs', Inl e)" by simp
    then have "p # ps = [] @ p # ps \<and>
       convert_loop ac q del fs acc [] = (fs, Inr (acc @ map pair_of [])) \<and>
       process_file ac q del fs p = (fs', Inl e)" by simp
    then show ?thesis by blast
  next
    case (Inr pr)
    with st process_file_ok [of ac q del fs p fs1 pr] have pr: "pr = pair_of p"
      by (auto simp: pair_of_def)
    from st Inr Cons.prems
    have "convert_loop ac q del fs1 (acc @ [pr]) ps = (fs', Inl e)" by simp
    from Cons.IH [OF this] obtain pre p' post fsk where
      a: "ps = pre @ p' # post"
      and b: "convert_loop ac q del fs1 (acc @ [pr]) pre = (fsk, Inr ((acc @ [pr]) @ map pair_of pre))"
      and c: "process_file ac q del fsk p' = (fs', Inl e)" by blast
    from a have "p # ps = (p # pre) @ p' # post" by simp
    moreover from b st Inr pr
    have "convert_loop ac q del fs acc (p # pre) = (fsk, Inr (acc @ map pair_of (p # pre)))"
      by simp
    ultimately show ?thesis using c by blast
  qed
qed

lemma loop_abort:
  assumes run: "convert_loop ac q del fs acc ps = (fs', Inl e)"
    and ext: "\<forall>s\<in>set ps. has_image_ext (name s)"
    and dist: "distinct ps"
  shows "\<exists>pre p post fsk. ps = pre @ p # post \<and>
       convert_loop ac q del fs acc pre = (fsk, Inr (acc @ map pair_of pre)) \<and>
       process_file ac q del fsk p = (fs', Inl e) \<and>
       (\<forall>s\<in>set pre. (\<exists>img. map_of fs' (dest_of s) = Some (File (WebP img q 6))) \<and>
                     map_of fs' s = (if del then None else map_of fs s)) \<and>
       (\<forall>s\<in>set (p # post). map_of fs' s = map_of fs s) \<and>
       (\<forall>x. x \<notin> dest_of ` set (pre @ [p]) \<and> x \<notin> set pre \<longrightarrow> map_of fs' x = map_of fs x)"
proof -
  from loop_abort_split [OF run] obtain pre p post fsk where
    a: "ps = pre @ p # post"
    and b: "convert_loop ac q del fs acc pre = (fsk, Inr (acc @ map pair_of pre))"
    and c: "process_file ac q del fsk p = (fs', Inl e)" by blast
  from ext a have epre: "\<forall>s\<in>set pre. has_image_ext (name s)" by simp
  note f = process_file_fail [OF c]
  have "(\<exists>img. map_of fs' (dest_of s) = Some (File (WebP img q 6))) \<and>
        map_of fs' s = (if del then None else map_of fs s)" if s: "s \<in> set pre" for s
  proof -
    from loop_success [OF b epre s]
    have d: "\<exists>img. map_of fsk (dest_of s) = Some (File (WebP img q 6))"
      and k: "map_of fsk s = (if del then None else map_of fs s)" by auto
    from s have "pre \<noteq> []" by auto
    with loop_quality [OF b] have qok: "webp_quality_ok q" by simp
    have "s \<noteq> dest_of p" using epre s image_ext_not_dest by blast
    with f k have "map_of fs' s = (if del then None else map_of fs s)" by simp
    moreover have "\<exists>img. map_of fs' (dest_of s) = Some (File (WebP img q 6))"
    proof (cases "dest_of s = dest_of p")
      case True
      with f qok d show ?thesis by auto
    next
      case False
      with f d show ?thesis by simp
    qed
    ultimately show ?thesis by simp
  qed
  moreover have "map_of fs' s = map_of fs s" if s: "s \<in> set (p # post)" for s
  proof -
    from s a ext have "has_image_ext (name s)" by auto
    then have nd: "s \<notin> dest_of ` set pre" "s \<noteq> dest_of p" using image_ext_not_dest by blast+
    from s a dist have "s \<notin> set pre" by auto
    with loop_frame [OF b nd(1)] have "map_of fsk s = map_of fs s" by auto
    with f nd(2) show ?thesis by simp
  qed
  moreover have "map_of fs' x = map_of fs x"
    if x: "x \<notin> dest_of ` set (pre @ [p]) \<and> x \<notin> set pre" for x
  proof -
    from x have "x \<notin> dest_of ` set pre" "x \<noteq> dest_of p" "x \<notin> set pre" by auto
    with loop_frame [OF b, of x] f show ?thesis by auto
  qed
  ultimately show ?thesis using a b c by blast
qed


text \<open>
  A returning loop at one of its files: the loop had completed on the files before it,
  the body completed on it, the file opened as it would have at the start, and the body
  left its conversion at the destination, where it stays unless a later file has the
  same destination.
\<close>

lemma loop_step_at:
  assumes run: "convert_loop ac q del fs acc (pre @ p # post) = (fs', Inr res)"
    and ext: "\<forall>s\<in>set (pre @ p # post). has_image_ext (name s)"
  shows "\<exists>fsk fs1 img.
           convert_loop ac q del fs acc pre = (fsk, Inr (acc @ map pair_of pre)) \<and>
           process_file ac q del fsk p = (fs1, Inr (pair_of p)) \<and>
           convert_loop ac q del fs1 (acc @ map pair_of (pre @ [p])) post = (fs', Inr res) \<and>
           image_open ac fs p = Inr img \<and> \<not> truncated img \<and>
           map_of fs1 (dest_of p) = Some (webp_file img q) \<and>
           (dest_of p \<notin> dest_of ` set post \<longrightarrow> map_of fs' (dest_of p) = Some (webp_file img q))"
proof -
  obtain fsk rk where k: "convert_loop ac q del fs acc pre = (fsk, rk)"
    by (cases "convert_loop ac q del fs acc pre") auto
  with run obtain a where rk: "rk = Inr a" by (cases rk) (auto simp: loop_append)
  with k loop_result [of ac q del fs acc pre fsk a] have a: "a = acc @ map pair_of pre" by simp
  from run k rk have l2: "convert_loop ac q del fsk a (p # post) = (fs', Inr res)"
    by (simp add: loop_append)
  obtain fs1 r1 where st: "process_file ac q del fsk p = (fs1, r1)"
    by (cases "process_file ac q del fsk p") auto
  with l2 obtain pr where r1: "r1 = Inr pr" by (cases r1) auto
  from st r1 process_file_ok [of ac q del fsk p fs1 pr] obtain img where
    pr: "pr = pair_of p" and
    o: "image_open ac fsk p = Inr img" and t: "\<not> truncated img" and
    m1: "map_of fs1 = (if del then ((map_of fsk)(dest_of p \<mapsto> webp_file img q))(p := None)
                       else (map_of fsk)(dest_of p \<mapsto> webp_file img q))"
    by (auto simp: pair_of_def)
  from st r1 l2 pr a
  have l3: "convert_loop ac q del fs1 (acc @ map pair_of (pre @ [p])) post = (fs', Inr res)"
    by simp
  from ext have ip: "has_image_ext (name p)" by simp
  then have "p \<notin> dest_of ` set pre" using image_ext_not_dest by blast
  from loop_frame [OF k this] o have "map_of fsk p = map_of fs p"
    by (auto simp: image_open_def)
  then have oc: "image_open ac fsk p = image_open ac fs p" by (rule image_open_cong)
  have pd: "p \<noteq> dest_of p" using ip image_ext_not_dest by blast
  with m1 have d1: "map_of fs1 (dest_of p) = Some (webp_file img q)" by auto
  have "dest_of p \<notin> set post" using ext image_ext_not_dest by fastforce
  with loop_frame [OF l3, of "dest_of p"] d1
  have "dest_of p \<notin> dest_of ` set post \<longrightarrow> map_of fs' (dest_of p) = Some (webp_file img q)"
    by auto
  with k rk a st r1 pr l3 o oc t d1 show ?thesis by auto
qed

subsection \<open>The scan\<close>

lemma endswith_iff: "endswith s suf \<longleftrightarrow> (\<exists>x. s = x @ suf)"
proof
  assume "endswith s suf"
  then have "s = take (length s - length suf) s @ suf"
    using append_take_drop_id [of "length s - length suf" s] by (simp add: endswith_def)
  then show "\<exists>x. s = x @ suf" ..
next
  assume "\<exists>x. s = x @ suf"
  then show "endswith s suf" by (auto simp: endswith_def)
qed

lemma endswith_both:
  assumes "endswith s a" "endswith s b" "length a \<le> length b"
  shows "endswith b a"
proof -
  from assms(1) obtain x where "s = x @ a" unfolding endswith_iff by blast
  moreover from assms(2) obtain y where "s = y @ b" unfolding endswith_iff by blast
  ultimately have eq: "x @ a = y @ b" by simp
  then have "length (x @ a) = length (y @ b)" by simp
  with assms(3) have len: "length y \<le> length x" by simp
  have "a = drop (length x) (x @ a)" by simp
  also have "\<dots> = drop (length x) (y @ b)" using eq by simp
  also have "\<dots> = drop (length x - length y) b" using len by simp
  finally have "b = take (length x - length y) b @ a" by simp
  then show ?thesis unfolding endswith_iff ..
qed

lemma ext_disjoint:
  "\<not> (endswith n ''.png'' \<and> endswith n ''.jpg'')"
  "\<not> (endswith n ''.png'' \<and> endswith n ''.jpeg'')"
  "\<not> (endswith n ''.jpg'' \<and> endswith n ''.jpeg'')"
proof -
  have a: "\<not> endswith ''.jpg'' ''.png''" "\<not> endswith ''.jpeg'' ''.png''" "\<not> endswith ''.jpeg'' ''.jpg''"
    by (simp_all add: endswith_def)
  show "\<not> (endswith n ''.png'' \<and> endswith n ''.jpg'')"
    using endswith_both [of n "''.png''" "''.jpg''"] a by auto
  show "\<not> (endswith n ''.png'' \<and> endswith n ''.jpeg'')"
    using endswith_both [of n "''.png''" "''.jpeg''"] a by auto
  show "\<not> (endswith n ''.jpg'' \<and> endswith n ''.jpeg'')"
    using endswith_both [of n "''.jpg''" "''.jpeg''"] a by auto
qed

lemma set_matching:
  "set (matching fs dir) =
     {p \<in> fst ` set fs. p \<noteq> [] \<and> butlast p = dir \<and> has_image_ext (name p)}"
  by (auto simp: matching_def iterdir_def has_image_ext_def)

lemma sorted_matching: "sorted (matching fs dir)"
  by (simp add: matching_def)

lemma distinct_matching: "distinct (map fst fs) \<Longrightarrow> distinct (matching fs dir)"
  using ext_disjoint by (auto simp: matching_def iterdir_def)

lemma matching_listing:
  assumes "distinct (map fst fs)" "distinct (map fst fs')" "set fs = set fs'"
  shows "matching fs dir = matching fs' dir"
proof -
  from assms(3) have "set (matching fs dir) = set (matching fs' dir)"
    by (simp add: set_matching)
  then show ?thesis
    using sorted_distinct_set_unique [of "matching fs dir" "matching fs' dir"]
      sorted_matching distinct_matching assms(1,2) by blast
qed

text \<open>Line 26 by cases: an unreadable status, a directory that can be listed, anything else.\<close>

lemma source_files_cases:
  "source_files ac fs dir =
     (if \<not> may_stat ac dir then Inl PermissionError
      else if map_of fs dir = Some Dir \<and> may_list ac dir then Inr (matching fs dir)
      else Inr [])"
  by (simp add: source_files_def glob_ext_def is_dir_def matching_def)

lemma scan_sorted: "source_files ac fs dir = Inr ps \<Longrightarrow> sorted ps"
  using sorted_matching [of fs dir] by (auto simp: source_files_cases split: if_splits)

lemma scan_distinct: "source_files ac fs dir = Inr ps \<Longrightarrow> distinct (map fst fs) \<Longrightarrow> distinct ps"
  using distinct_matching [of fs dir] by (auto simp: source_files_cases split: if_splits)

lemma scan_entries:
  "source_files ac fs dir = Inr ps \<Longrightarrow> s \<in> set ps \<Longrightarrow>
     s \<in> fst ` set fs \<and> s \<noteq> [] \<and> butlast s = dir \<and> has_image_ext (name s)"
  using set_matching [of fs dir] by (auto simp: source_files_cases split: if_splits)

lemma scan_ext: "source_files ac fs dir = Inr ps \<Longrightarrow> \<forall>s\<in>set ps. has_image_ext (name s)"
  using scan_entries by blast

lemma scan_present: "source_files ac fs dir = Inr ps \<Longrightarrow> s \<in> set ps \<Longrightarrow> map_of fs s \<noteq> None"
  using scan_entries [of ac fs dir ps s] by (auto simp: map_of_eq_None_iff)

lemma scan_listing:
  assumes "distinct (map fst fs)" "distinct (map fst fs')" "set fs = set fs'"
  shows "source_files ac fs dir = source_files ac fs' dir"
proof -
  from assms have "map_of fs = map_of fs'" by (simp add: map_of_inject_set)
  with matching_listing [OF assms] show ?thesis by (simp add: source_files_cases)
qed

lemma common_prefix_order: "(r @ a \<le> r @ b) = (a \<le> b)" for a b :: "'a :: linorder list"
  by (induction r) (auto simp: order_le_less)

lemma sibling_order: "(r @ [a] \<le> r @ [b]) = (a \<le> b)" for a b :: string
proof -
  have "([a] \<le> [b]) = (a \<le> b)" by (auto simp: order_le_less)
  then show ?thesis unfolding common_prefix_order .
qed

lemma path_split: "p \<noteq> [] \<Longrightarrow> butlast p = dir \<Longrightarrow> p = dir @ [name p]"
  by (auto simp: name_def)

lemma run_scan:
  "convert_images_to_webp ac fs dir q del = (fs', Inr res) \<Longrightarrow>
     \<exists>ps. source_files ac fs dir = Inr ps \<and> convert_loop ac q del fs [] ps = (fs', Inr res)"
  by (cases "source_files ac fs dir") (auto simp: convert_images_to_webp_def)

subsection \<open>Errors of the library calls\<close>

lemma process_file_raises:
  assumes "name p \<noteq> []"
  shows "(image_open ac fs p = Inl e \<longrightarrow> process_file ac q del fs p = (fs, Inl e)) \<and>
         (\<forall>img. image_open ac fs p = Inr img \<and>
            (if mode img \<in> {''RGBA'', ''P''} then convert img ''RGBA''
             else convert img ''RGB'') = Inl e \<longrightarrow>
            process_file ac q del fs p = (fs, Inl e)) \<and>
         (\<forall>img out fs1. image_open ac fs p = Inr img \<and>
            (if mode img \<in> {''RGBA'', ''P''} then convert img ''RGBA''
             else convert img ''RGB'') = Inr out \<and>
            save ac fs out (dest_of p) q 6 = (fs1, Inl e) \<longrightarrow>
            process_file ac q del fs p = (fs1, Inl e)) \<and>
         (\<forall>img out fs1. image_open ac fs p = Inr img \<and>
            (if mode img \<in> {''RGBA'', ''P''} then convert img ''RGBA''
             else convert img ''RGB'') = Inr out \<and>
            save ac fs out (dest_of p) q 6 = (fs1, Inr ()) \<and>
            del \<and> unlink ac fs1 p = Inl e \<longrightarrow>
            process_file ac q del fs p = (fs1, Inl e))"
  using assms by (auto simp: process_file_def with_suffix_webp)

subsection \<open>Printing a number\<close>

lemma decimal_value_snoc: "decimal_value (s @ [c]) = 10 * decimal_value s + (of_char c - 48)"
  by (simp add: decimal_value_def)

lemma below_ten: "k < 10 \<Longrightarrow> k \<in> {0, 1, 2, 3, 4, 5, 6, 7, 8, 9 :: nat}"
  by auto

lemma digit_char: "k < 10 \<Longrightarrow> of_char (''0123456789'' ! k) = (48 + k :: nat)"
  using below_ten [of k] by auto

lemma digit_in: "k < 10 \<Longrightarrow> ''0123456789'' ! k \<in> set ''0123456789''"
  using nth_mem [of k "''0123456789''"] by simp

lemma decimal_value_str_nat: "decimal_value (str_nat n) = n"
proof (induction n rule: str_nat.induct)
  case (1 n)
  show ?case
  proof (cases "n < 10")
    case True
    then have "decimal_value (str_nat n) = of_char (''0123456789'' ! n) - (48 :: nat)"
      by (simp add: str_nat.simps [of n] decimal_value_def)
    also have "\<dots> = n" using digit_char [OF True] by simp
    finally show ?thesis .
  next
    case False
    have m: "n mod 10 < 10" by simp
    from False have "decimal_value (str_nat n) =
        10 * decimal_value (str_nat (n div 10)) + (of_char (''0123456789'' ! (n mod 10)) - (48 :: nat))"
      by (simp add: str_nat.simps [of n] decimal_value_snoc)
    also have "\<dots> = 10 * (n div 10) + n mod 10"
      using "1.IH" [OF False] digit_char [OF m] by simp
    finally show ?thesis by simp
  qed
qed

lemma str_nat_digits: "set (str_nat n) \<subseteq> set ''0123456789''"
proof (induction n rule: str_nat.induct)
  case (1 n)
  show ?case
  proof (cases "n < 10")
    case True
    then show ?thesis using digit_in [of n] by (simp add: str_nat.simps [of n])
  next
    case False
    have m: "n mod 10 < 10" by simp
    from False "1.IH" [OF False] digit_in [OF m] show ?thesis
      by (simp add: str_nat.simps [of n])
  qed
qed

lemma str_nat_0: "str_nat 0 = ''0''"
  by (simp add: str_nat.simps)

subsection \<open>The machine without symbolic links\<close>









section \<open>The claims\<close>

subsection \<open>C1: the pairs returned\<close>

lemma abc_sources:
  "source_files allow_all fs_abc images_dir =
     Inr [images_dir @ [''a.png''], images_dir @ [''b.jpg''], images_dir @ [''c.jpeg'']]"
  by code_simp


lemma abc_distinct: "distinct (map fst fs_abc)"
  by code_simp





subsection \<open>C2: what the scan finds\<close>

lemma gif_not_image: "endswith n ''.gif'' \<Longrightarrow> \<not> has_image_ext n"
  using endswith_last [of n "''.gi''" "CHR ''f''"] has_image_ext_last [of n] by auto

lemma mixed_sources:
  "source_files allow_all fs_mixed images_dir =
     Inr [images_dir @ [''a.png''], images_dir @ [''b.jpg''], images_dir @ [''c.jpeg'']]"
  by code_simp

lemma mixed_listable:
  "may_stat allow_all images_dir \<and> map_of fs_mixed images_dir = Some Dir \<and>
   may_list allow_all images_dir"
  by code_simp

text \<open>
  C2, as the code has it. Line 26 raises a permission error for a root whose status the
  process may not read, and finds nothing in a root that is not a directory or that the
  process may not list. For a directory it may list, the files the loop works through
  are exactly the entries directly inside the root, of any kind (the listing does not
  tell files from directories), whose names end, character for character, in \<open>.png\<close>,
  \<open>.jpg\<close> or \<open>.jpeg\<close>. They are taken in ascending order of their paths, which for
  siblings is the lexicographic order of their names, each once. A name ending in
  \<open>.gif\<close> is never among them, nor in the pairs returned.
\<close>

theorem discovery_exact:
  "(\<not> may_stat ac dir \<longrightarrow>
      source_files ac fs dir = Inl PermissionError \<and>
      convert_images_to_webp ac fs dir q del = (fs, Inl PermissionError)) \<and>
   (may_stat ac dir \<and> \<not> (map_of fs dir = Some Dir \<and> may_list ac dir) \<longrightarrow>
      source_files ac fs dir = Inr []) \<and>
   (may_stat ac dir \<and> map_of fs dir = Some Dir \<and> may_list ac dir \<longrightarrow>
      (\<exists>ps. source_files ac fs dir = Inr ps \<and>
         set ps = {p \<in> fst ` set fs. \<exists>n. p = dir @ [n] \<and>
                     (endswith n ''.png'' \<or> endswith n ''.jpg'' \<or> endswith n ''.jpeg'')} \<and>
         sorted ps \<and>
         (distinct (map fst fs) \<longrightarrow> distinct ps) \<and>
         (\<forall>p\<in>set ps. \<forall>p'\<in>set ps. (p \<le> p') = (name p \<le> name p')))) \<and>
   (\<forall>ps p. source_files ac fs dir = Inr ps \<and> endswith (name p) ''.gif'' \<longrightarrow> p \<notin> set ps) \<and>
   (convert_images_to_webp ac fs dir q del = (fs', Inr res) \<longrightarrow>
      (\<exists>ps. source_files ac fs dir = Inr ps \<and> map fst res = map name ps) \<and>
      (\<forall>pr\<in>set res. \<not> endswith (fst pr) ''.gif''))"
proof (intro conjI impI allI)
  assume "\<not> may_stat ac dir"
  then show "source_files ac fs dir = Inl PermissionError"
    "convert_images_to_webp ac fs dir q del = (fs, Inl PermissionError)"
    by (simp_all add: convert_images_to_webp_def source_files_cases)
next
  assume "may_stat ac dir \<and> \<not> (map_of fs dir = Some Dir \<and> may_list ac dir)"
  then show "source_files ac fs dir = Inr []" by (auto simp: source_files_cases)
next
  assume a: "may_stat ac dir \<and> map_of fs dir = Some Dir \<and> may_list ac dir"
  then have sc: "source_files ac fs dir = Inr (matching fs dir)"
    by (simp add: source_files_cases)
  have "{p \<in> fst ` set fs. p \<noteq> [] \<and> butlast p = dir \<and> has_image_ext (name p)} =
        {p \<in> fst ` set fs. \<exists>n. p = dir @ [n] \<and>
           (endswith n ''.png'' \<or> endswith n ''.jpg'' \<or> endswith n ''.jpeg'')}"
    by (auto simp: has_image_ext_def name_snoc dest: path_split)
  then have st: "set (matching fs dir) =
        {p \<in> fst ` set fs. \<exists>n. p = dir @ [n] \<and>
           (endswith n ''.png'' \<or> endswith n ''.jpg'' \<or> endswith n ''.jpeg'')}"
    by (simp add: set_matching)
  have ord: "\<forall>p\<in>set (matching fs dir). \<forall>p'\<in>set (matching fs dir).
      (p \<le> p') = (name p \<le> name p')"
  proof (intro ballI)
    fix p p' assume "p \<in> set (matching fs dir)" "p' \<in> set (matching fs dir)"
    then have "p = dir @ [name p]" "p' = dir @ [name p']"
      by (auto simp: set_matching intro: path_split)
    then show "(p \<le> p') = (name p \<le> name p')"
      using sibling_order [of dir "name p" "name p'"] by simp
  qed
  from sc st ord sorted_matching [of fs dir] distinct_matching [of fs dir]
  show "\<exists>ps. source_files ac fs dir = Inr ps \<and>
         set ps = {p \<in> fst ` set fs. \<exists>n. p = dir @ [n] \<and>
                     (endswith n ''.png'' \<or> endswith n ''.jpg'' \<or> endswith n ''.jpeg'')} \<and>
         sorted ps \<and>
         (distinct (map fst fs) \<longrightarrow> distinct ps) \<and>
         (\<forall>p\<in>set ps. \<forall>p'\<in>set ps. (p \<le> p') = (name p \<le> name p'))"
    by blast
next
  fix ps p assume "source_files ac fs dir = Inr ps \<and> endswith (name p) ''.gif''"
  then show "p \<notin> set ps" using gif_not_image scan_ext by blast
next
  assume r: "convert_images_to_webp ac fs dir q del = (fs', Inr res)"
  from run_scan [OF r] obtain ps where sc: "source_files ac fs dir = Inr ps"
    and run: "convert_loop ac q del fs [] ps = (fs', Inr res)" by blast
  from loop_result [OF run] have res: "res = map pair_of ps" by simp
  then have "map fst res = map name ps" by (simp add: pair_of_def comp_def)
  with sc show "\<exists>ps. source_files ac fs dir = Inr ps \<and> map fst res = map name ps" by blast
  from res scan_ext [OF sc] gif_not_image
  show "\<forall>pr\<in>set res. \<not> endswith (fst pr) ''.gif''" by (auto simp: pair_of_def)
qed

theorem discovery_exact_witness:
  "source_files allow_all fs_mixed images_dir =
     Inr [images_dir @ [''a.png''], images_dir @ [''b.jpg''], images_dir @ [''c.jpeg'']] \<and>
   endswith (name (images_dir @ [''notes.gif''])) ''.gif'' \<and>
   images_dir @ [''notes.gif''] \<in> fst ` set fs_mixed \<and>
   images_dir @ [''notes.gif''] \<notin>
     set [images_dir @ [''a.png''], images_dir @ [''b.jpg''], images_dir @ [''c.jpeg'']] \<and>
   sorted [images_dir @ [''a.png''], images_dir @ [''b.jpg''], images_dir @ [''c.jpeg'']]"
proof -
  let ?ps = "[images_dir @ [''a.png''], images_dir @ [''b.jpg''], images_dir @ [''c.jpeg'']]"
  have g: "endswith (name (images_dir @ [''notes.gif''])) ''.gif''" by code_simp
  have m: "images_dir @ [''notes.gif''] \<in> fst ` set fs_mixed"
    by (simp add: fs_mixed_def)
  from discovery_exact [of allow_all images_dir fs_mixed, THEN conjunct2, THEN conjunct2,
      THEN conjunct2, THEN conjunct1] mixed_sources g
  have n: "images_dir @ [''notes.gif''] \<notin> set ?ps" by blast
  note third = discovery_exact [of allow_all images_dir fs_mixed, THEN conjunct2,
      THEN conjunct2, THEN conjunct1, THEN mp, OF mixed_listable]
  then obtain ps where h: "source_files allow_all fs_mixed images_dir = Inr ps \<and>
         set ps = {p \<in> fst ` set fs_mixed. \<exists>n. p = images_dir @ [n] \<and>
                     (endswith n ''.png'' \<or> endswith n ''.jpg'' \<or> endswith n ''.jpeg'')} \<and>
         sorted ps \<and>
         (distinct (map fst fs_mixed) \<longrightarrow> distinct ps) \<and>
         (\<forall>p\<in>set ps. \<forall>p'\<in>set ps. (p \<le> p') = (name p \<le> name p'))" ..
  from h [THEN conjunct1] mixed_sources have "ps = ?ps" by simp
  with h [THEN conjunct2, THEN conjunct2, THEN conjunct1] have "sorted ?ps" by simp
  with g m n mixed_sources show ?thesis by simp
qed

text \<open>
  C2 as stated fails for a directory the process may not list: \<open>a.png\<close> is a file
  directly inside the root with a matching name, and the scan finds nothing, so the run
  processes no file and returns the empty list.
\<close>

theorem discovery_unlistable_counterexample:
  "map_of fs_abc images_dir = Some Dir \<and>
   map_of fs_abc (images_dir @ [''a.png'']) = Some (pic ''P'' 1) \<and>
   endswith (name (images_dir @ [''a.png''])) ''.png'' \<and>
   source_files no_list fs_abc images_dir = Inr [] \<and>
   convert_images_to_webp no_list fs_abc images_dir 82 False = (fs_abc, Inr [])"
  by code_simp

subsection \<open>C3: the conversion by mode\<close>

lemma converted_props:
  "\<not> truncated img \<Longrightarrow>
     (mode (converted img) = ''RGBA'') = (mode img = ''RGBA'' \<or> mode img = ''P'') \<and>
     (mode (converted img) = ''RGB'') = (\<not> (mode img = ''RGBA'' \<or> mode img = ''P'')) \<and>
     (mode img = ''LA'' \<longrightarrow> mode (converted img) = ''RGB'' \<and> \<not> has_transparency (converted img)) \<and>
     convert img (mode (converted img)) = Inr (converted img) \<and>
     picture (converted img) = picture img"
  by (simp add: converted_def convert_def mode_has_alpha_def)

lemma save_method: "save a f i p k m = (f1, Inr u) \<Longrightarrow> m \<le> 6"
  by (auto simp: save_def webp_max_method_def split: if_splits)

lemma abc_run_keep:
  "snd (convert_images_to_webp allow_all fs_abc images_dir 82 False) =
     Inr [(''a.png'', ''a.webp''), (''b.jpg'', ''b.webp''), (''c.jpeg'', ''c.webp'')]"
  by code_simp

lemma abc_b_open:
  "image_open allow_all fs_abc (images_dir @ [''b.jpg'']) =
     Inr \<lparr>mode = ''LA'', picture = 2, truncated = False, has_transparency = True\<rparr>"
  by code_simp

lemma abc_b_dest:
  "dest_of (images_dir @ [''b.jpg'']) = images_dir @ [''b.webp''] \<and>
   dest_of (images_dir @ [''b.jpg'']) \<notin> dest_of ` set [images_dir @ [''c.jpeg'']]"
  by code_simp

text \<open>
  C3. In every run of \<open>convert_images_to_webp\<close> that returns, at every file of the
  scan: the loop had completed on the files before it, the file opened as an image, and
  the body converted that image to mode RGBA exactly when its mode is RGBA or P and to
  mode RGB in every other case (so an LA image, grey with alpha, is written as RGB,
  its transparency gone), the picture being the same, and wrote the WEBP encoding of the
  converted image to the destination with the quality given and method 6. At the end of
  the run the destination holds that encoding unless a later file has the same
  destination. Method 6 is the highest there is: the encoder accepts none above it.
\<close>

theorem conversion_by_mode:
  assumes "convert_images_to_webp ac fs dir q del = (fs', Inr res)"
  shows "(\<exists>ps. source_files ac fs dir = Inr ps \<and>
            (\<forall>pre s post. ps = pre @ s # post \<longrightarrow>
               (\<exists>fsk fs1 img out.
                  convert_loop ac q del fs [] pre = (fsk, Inr (map pair_of pre)) \<and>
                  process_file ac q del fsk s = (fs1, Inr (pair_of s)) \<and>
                  convert_loop ac q del fs1 (map pair_of (pre @ [s])) post = (fs', Inr res) \<and>
                  image_open ac fs s = Inr img \<and>
                  (mode out = ''RGBA'') = (mode img = ''RGBA'' \<or> mode img = ''P'') \<and>
                  (mode out = ''RGB'') = (\<not> (mode img = ''RGBA'' \<or> mode img = ''P'')) \<and>
                  (mode img = ''LA'' \<longrightarrow> mode out = ''RGB'' \<and> \<not> has_transparency out) \<and>
                  convert img (mode out) = Inr out \<and>
                  picture out = picture img \<and>
                  map_of fs1 (dest_of s) = Some (File (WebP out q 6)) \<and>
                  (dest_of s \<notin> dest_of ` set post \<longrightarrow>
                     map_of fs' (dest_of s) = Some (File (WebP out q 6)))))) \<and>
         (\<forall>a f i p k m f1. save a f i p k m = (f1, Inr ()) \<longrightarrow> m \<le> 6)"
proof (intro conjI allI impI)
  from run_scan [OF assms] obtain ps where sc: "source_files ac fs dir = Inr ps"
    and run: "convert_loop ac q del fs [] ps = (fs', Inr res)" by blast
  have ext: "\<forall>s\<in>set ps. has_image_ext (name s)" using sc by (rule scan_ext)
  have "\<exists>fsk fs1 img out.
                  convert_loop ac q del fs [] pre = (fsk, Inr (map pair_of pre)) \<and>
                  process_file ac q del fsk s = (fs1, Inr (pair_of s)) \<and>
                  convert_loop ac q del fs1 (map pair_of (pre @ [s])) post = (fs', Inr res) \<and>
                  image_open ac fs s = Inr img \<and>
                  (mode out = ''RGBA'') = (mode img = ''RGBA'' \<or> mode img = ''P'') \<and>
                  (mode out = ''RGB'') = (\<not> (mode img = ''RGBA'' \<or> mode img = ''P'')) \<and>
                  (mode img = ''LA'' \<longrightarrow> mode out = ''RGB'' \<and> \<not> has_transparency out) \<and>
                  convert img (mode out) = Inr out \<and>
                  picture out = picture img \<and>
                  map_of fs1 (dest_of s) = Some (File (WebP out q 6)) \<and>
                  (dest_of s \<notin> dest_of ` set post \<longrightarrow>
                     map_of fs' (dest_of s) = Some (File (WebP out q 6)))"
    if sp: "ps = pre @ s # post" for pre s post
  proof -
    from loop_step_at [OF run [unfolded sp] ext [unfolded sp]] obtain fsk fs1 img where
      a: "convert_loop ac q del fs [] pre = (fsk, Inr ([] @ map pair_of pre))"
      and b: "process_file ac q del fsk s = (fs1, Inr (pair_of s))"
      and c: "convert_loop ac q del fs1 ([] @ map pair_of (pre @ [s])) post = (fs', Inr res)"
      and o: "image_open ac fs s = Inr img" and t: "\<not> truncated img"
      and d1: "map_of fs1 (dest_of s) = Some (webp_file img q)"
      and d2: "dest_of s \<notin> dest_of ` set post \<longrightarrow> map_of fs' (dest_of s) = Some (webp_file img q)"
      by blast
    note cp = converted_props [OF t]
    from a b c o d1 d2 cp show ?thesis
      unfolding webp_file_def append_Nil by (intro exI [of _ fsk] exI [of _ fs1]
          exI [of _ img] exI [of _ "converted img"]) blast
  qed
  with sc show "\<exists>ps. source_files ac fs dir = Inr ps \<and>
            (\<forall>pre s post. ps = pre @ s # post \<longrightarrow>
               (\<exists>fsk fs1 img out.
                  convert_loop ac q del fs [] pre = (fsk, Inr (map pair_of pre)) \<and>
                  process_file ac q del fsk s = (fs1, Inr (pair_of s)) \<and>
                  convert_loop ac q del fs1 (map pair_of (pre @ [s])) post = (fs', Inr res) \<and>
                  image_open ac fs s = Inr img \<and>
                  (mode out = ''RGBA'') = (mode img = ''RGBA'' \<or> mode img = ''P'') \<and>
                  (mode out = ''RGB'') = (\<not> (mode img = ''RGBA'' \<or> mode img = ''P'')) \<and>
                  (mode img = ''LA'' \<longrightarrow> mode out = ''RGB'' \<and> \<not> has_transparency out) \<and>
                  convert img (mode out) = Inr out \<and>
                  picture out = picture img \<and>
                  map_of fs1 (dest_of s) = Some (File (WebP out q 6)) \<and>
                  (dest_of s \<notin> dest_of ` set post \<longrightarrow>
                     map_of fs' (dest_of s) = Some (File (WebP out q 6)))))"
    by blast
next
  fix a f i p k m f1 assume "save a f i p k m = (f1, Inr ())"
  then show "m \<le> 6" by (rule save_method)
qed

theorem conversion_by_mode_witness:
  "\<exists>out. mode out = ''RGB'' \<and> \<not> has_transparency out \<and> picture out = 2 \<and>
     image_open allow_all fs_abc (images_dir @ [''b.jpg'']) =
       Inr \<lparr>mode = ''LA'', picture = 2, truncated = False, has_transparency = True\<rparr> \<and>
     map_of (fst (convert_images_to_webp allow_all fs_abc images_dir 82 False))
       (images_dir @ [''b.webp'']) = Some (File (WebP out 82 6))"
proof -
  let ?r = "convert_images_to_webp allow_all fs_abc images_dir 82 False"
  let ?b = "images_dir @ [''b.jpg'']"
  have r: "?r = (fst ?r, Inr [(''a.png'', ''a.webp''), (''b.jpg'', ''b.webp''), (''c.jpeg'', ''c.webp'')])"
    using abc_run_keep by (simp add: prod_eq_iff)
  from conversion_by_mode [OF r, THEN conjunct1] obtain ps where
    sc: "source_files allow_all fs_abc images_dir = Inr ps" and
    al: "\<forall>pre s post. ps = pre @ s # post \<longrightarrow>
               (\<exists>fsk fs1 img out.
                  convert_loop allow_all 82 False fs_abc [] pre = (fsk, Inr (map pair_of pre)) \<and>
                  process_file allow_all 82 False fsk s = (fs1, Inr (pair_of s)) \<and>
                  convert_loop allow_all 82 False fs1 (map pair_of (pre @ [s])) post =
                    (fst ?r, Inr [(''a.png'', ''a.webp''), (''b.jpg'', ''b.webp''), (''c.jpeg'', ''c.webp'')]) \<and>
                  image_open allow_all fs_abc s = Inr img \<and>
                  (mode out = ''RGBA'') = (mode img = ''RGBA'' \<or> mode img = ''P'') \<and>
                  (mode out = ''RGB'') = (\<not> (mode img = ''RGBA'' \<or> mode img = ''P'')) \<and>
                  (mode img = ''LA'' \<longrightarrow> mode out = ''RGB'' \<and> \<not> has_transparency out) \<and>
                  convert img (mode out) = Inr out \<and>
                  picture out = picture img \<and>
                  map_of fs1 (dest_of s) = Some (File (WebP out 82 6)) \<and>
                  (dest_of s \<notin> dest_of ` set post \<longrightarrow>
                     map_of (fst ?r) (dest_of s) = Some (File (WebP out 82 6))))"
    by (elim exE conjE)
  from sc abc_sources have "ps = [images_dir @ [''a.png'']] @ ?b # [images_dir @ [''c.jpeg'']]"
    by simp
  with al obtain img out where
    o: "image_open allow_all fs_abc ?b = Inr img" and
    la: "mode img = ''LA'' \<longrightarrow> mode out = ''RGB'' \<and> \<not> has_transparency out" and
    pc: "picture out = picture img" and
    fin: "dest_of ?b \<notin> dest_of ` set [images_dir @ [''c.jpeg'']] \<longrightarrow>
            map_of (fst ?r) (dest_of ?b) = Some (File (WebP out 82 6))"
    by blast
  from o abc_b_open have "img = \<lparr>mode = ''LA'', picture = 2, truncated = False, has_transparency = True\<rparr>"
    by simp
  with la pc fin abc_b_dest abc_b_open show ?thesis by auto
qed

subsection \<open>C4: the originals after a run\<close>

lemma abc_run_delete:
  "snd (convert_images_to_webp allow_all fs_abc images_dir 82 True) =
     Inr [(''a.png'', ''a.webp''), (''b.jpg'', ''b.webp''), (''c.jpeg'', ''c.webp'')]"
  by code_simp

text \<open>
  C4, as the code has it. After any run, complete or aborted, of a file system that
  lists no path twice. When the scan raises, nothing has changed. Without deletion every
  source file is still there, unchanged, and whatever path changed is a destination
  \<open>.webp\<close> and holds a file. With deletion every source file is either as it was or
  gone, and where it is gone its destination holds a WEBP file written with the run's
  quality (the body deletes only after the save has returned); a run that returns has
  deleted every source file; a run that aborts has deleted the files on which the body
  completed, those before the failing one, and the failing file itself is still there
  as it was, also when its WEBP has been written and it was the deletion that raised.
\<close>

theorem originals_after_run:
  assumes "convert_images_to_webp ac fs dir q del = (fs', r)" and "distinct (map fst fs)"
  shows "(\<forall>e. source_files ac fs dir = Inl e \<longrightarrow> fs' = fs \<and> r = Inl e) \<and>
         (\<forall>ps. source_files ac fs dir = Inr ps \<longrightarrow>
            (\<not> del \<longrightarrow>
               (\<forall>s\<in>set ps. map_of fs' s = map_of fs s \<and> map_of fs s \<noteq> None) \<and>
               (\<forall>x. map_of fs' x \<noteq> map_of fs x \<longrightarrow>
                  x \<in> dest_of ` set ps \<and> (\<exists>d. map_of fs' x = Some (File d)))) \<and>
            (del \<longrightarrow>
               (\<forall>s\<in>set ps.
                  map_of fs' s = map_of fs s \<or>
                  map_of fs' s = None \<and>
                    (\<exists>img. map_of fs' (dest_of s) = Some (File (WebP img q 6)))) \<and>
               (\<forall>res. r = Inr res \<longrightarrow> (\<forall>s\<in>set ps. map_of fs' s = None)) \<and>
               (\<forall>e. r = Inl e \<longrightarrow>
                  (\<exists>pre p post fsk. ps = pre @ p # post \<and>
                     convert_loop ac q del fs [] pre = (fsk, Inr (map pair_of pre)) \<and>
                     process_file ac q del fsk p = (fs', Inl e) \<and>
                     (\<forall>s\<in>set pre. map_of fs' s = None) \<and>
                     map_of fs' p = map_of fs p \<and> map_of fs p \<noteq> None))))"
proof (rule conjI)
  show "\<forall>e. source_files ac fs dir = Inl e \<longrightarrow> fs' = fs \<and> r = Inl e"
    using assms(1) by (auto simp: convert_images_to_webp_def)
next
  have "(\<not> del \<longrightarrow>
               (\<forall>s\<in>set ps. map_of fs' s = map_of fs s \<and> map_of fs s \<noteq> None) \<and>
               (\<forall>x. map_of fs' x \<noteq> map_of fs x \<longrightarrow>
                  x \<in> dest_of ` set ps \<and> (\<exists>d. map_of fs' x = Some (File d)))) \<and>
            (del \<longrightarrow>
               (\<forall>s\<in>set ps.
                  map_of fs' s = map_of fs s \<or>
                  map_of fs' s = None \<and>
                    (\<exists>img. map_of fs' (dest_of s) = Some (File (WebP img q 6)))) \<and>
               (\<forall>res. r = Inr res \<longrightarrow> (\<forall>s\<in>set ps. map_of fs' s = None)) \<and>
               (\<forall>e. r = Inl e \<longrightarrow>
                  (\<exists>pre p post fsk. ps = pre @ p # post \<and>
                     convert_loop ac q del fs [] pre = (fsk, Inr (map pair_of pre)) \<and>
                     process_file ac q del fsk p = (fs', Inl e) \<and>
                     (\<forall>s\<in>set pre. map_of fs' s = None) \<and>
                     map_of fs' p = map_of fs p \<and> map_of fs p \<noteq> None)))"
    if sc: "source_files ac fs dir = Inr ps" for ps
  proof (rule conjI)
  from sc assms(1) have run: "convert_loop ac q del fs [] ps = (fs', r)"
    by (simp add: convert_images_to_webp_def)
  have ext: "\<forall>s\<in>set ps. has_image_ext (name s)" using sc by (rule scan_ext)
  have dist: "distinct ps" using sc assms(2) by (rule scan_distinct)
  have nodest: "s \<notin> dest_of ` set ps" if "s \<in> set ps" for s
    using that ext image_ext_not_dest by blast
  show "\<not> del \<longrightarrow>
               (\<forall>s\<in>set ps. map_of fs' s = map_of fs s \<and> map_of fs s \<noteq> None) \<and>
               (\<forall>x. map_of fs' x \<noteq> map_of fs x \<longrightarrow>
                  x \<in> dest_of ` set ps \<and> (\<exists>d. map_of fs' x = Some (File d)))"
  proof (intro impI conjI ballI allI)
    fix s assume nd: "\<not> del" and s: "s \<in> set ps"
    from loop_frame [OF run nodest [OF s]] nd show "map_of fs' s = map_of fs s" by simp
    from sc s show "map_of fs s \<noteq> None" by (rule scan_present)
  next
    fix x assume nd: "\<not> del" and ch: "map_of fs' x \<noteq> map_of fs x"
    from loop_frame [OF run, of x] nd ch show "x \<in> dest_of ` set ps" by blast
    from loop_change [OF run, of x] nd ch show "\<exists>d. map_of fs' x = Some (File d)" by blast
  qed
  show "del \<longrightarrow>
               (\<forall>s\<in>set ps.
                  map_of fs' s = map_of fs s \<or>
                  map_of fs' s = None \<and>
                    (\<exists>img. map_of fs' (dest_of s) = Some (File (WebP img q 6)))) \<and>
               (\<forall>res. r = Inr res \<longrightarrow> (\<forall>s\<in>set ps. map_of fs' s = None)) \<and>
               (\<forall>e. r = Inl e \<longrightarrow>
                  (\<exists>pre p post fsk. ps = pre @ p # post \<and>
                     convert_loop ac q del fs [] pre = (fsk, Inr (map pair_of pre)) \<and>
                     process_file ac q del fsk p = (fs', Inl e) \<and>
                     (\<forall>s\<in>set pre. map_of fs' s = None) \<and>
                     map_of fs' p = map_of fs p \<and> map_of fs p \<noteq> None))"
  proof
    assume d: del
    show "(\<forall>s\<in>set ps.
                  map_of fs' s = map_of fs s \<or>
                  map_of fs' s = None \<and>
                    (\<exists>img. map_of fs' (dest_of s) = Some (File (WebP img q 6)))) \<and>
               (\<forall>res. r = Inr res \<longrightarrow> (\<forall>s\<in>set ps. map_of fs' s = None)) \<and>
               (\<forall>e. r = Inl e \<longrightarrow>
                  (\<exists>pre p post fsk. ps = pre @ p # post \<and>
                     convert_loop ac q del fs [] pre = (fsk, Inr (map pair_of pre)) \<and>
                     process_file ac q del fsk p = (fs', Inl e) \<and>
                     (\<forall>s\<in>set pre. map_of fs' s = None) \<and>
                     map_of fs' p = map_of fs p \<and> map_of fs p \<noteq> None))"
    proof (cases r)
      case (Inr res)
      with run d loop_success [of ac q del fs "[]" ps fs' res] ext
      have "\<forall>s\<in>set ps. map_of fs' s = None \<and>
              (\<exists>img. map_of fs' (dest_of s) = Some (File (WebP img q 6)))"
        by auto
      with Inr show ?thesis by auto
    next
      case (Inl e)
      with run have "convert_loop ac q del fs [] ps = (fs', Inl e)" by simp
      from loop_abort [OF this ext dist] obtain pre p post fsk where
        sp: "ps = pre @ p # post"
        and a: "convert_loop ac q del fs [] pre = (fsk, Inr ([] @ map pair_of pre))"
        and b: "process_file ac q del fsk p = (fs', Inl e)"
        and c: "\<forall>s\<in>set pre. (\<exists>img. map_of fs' (dest_of s) = Some (File (WebP img q 6))) \<and>
                     map_of fs' s = (if del then None else map_of fs s)"
        and e: "\<forall>s\<in>set (p # post). map_of fs' s = map_of fs s" by blast
      have "\<forall>s\<in>set ps.
               map_of fs' s = map_of fs s \<or>
               map_of fs' s = None \<and> (\<exists>img. map_of fs' (dest_of s) = Some (File (WebP img q 6)))"
        unfolding sp using c e d by auto
      moreover have "map_of fs p \<noteq> None" using scan_present [OF sc, of p] sp by simp
      then have "\<exists>pre p post fsk. ps = pre @ p # post \<and>
                  convert_loop ac q del fs [] pre = (fsk, Inr (map pair_of pre)) \<and>
                  process_file ac q del fsk p = (fs', Inl e) \<and>
                  (\<forall>s\<in>set pre. map_of fs' s = None) \<and>
                  map_of fs' p = map_of fs p \<and> map_of fs p \<noteq> None"
        using sp a b c d e by auto
      ultimately show ?thesis using Inl by auto
    qed
  qed
  qed
  then show "\<forall>ps. source_files ac fs dir = Inr ps \<longrightarrow>
            (\<not> del \<longrightarrow>
               (\<forall>s\<in>set ps. map_of fs' s = map_of fs s \<and> map_of fs s \<noteq> None) \<and>
               (\<forall>x. map_of fs' x \<noteq> map_of fs x \<longrightarrow>
                  x \<in> dest_of ` set ps \<and> (\<exists>d. map_of fs' x = Some (File d)))) \<and>
            (del \<longrightarrow>
               (\<forall>s\<in>set ps.
                  map_of fs' s = map_of fs s \<or>
                  map_of fs' s = None \<and>
                    (\<exists>img. map_of fs' (dest_of s) = Some (File (WebP img q 6)))) \<and>
               (\<forall>res. r = Inr res \<longrightarrow> (\<forall>s\<in>set ps. map_of fs' s = None)) \<and>
               (\<forall>e. r = Inl e \<longrightarrow>
                  (\<exists>pre p post fsk. ps = pre @ p # post \<and>
                     convert_loop ac q del fs [] pre = (fsk, Inr (map pair_of pre)) \<and>
                     process_file ac q del fsk p = (fs', Inl e) \<and>
                     (\<forall>s\<in>set pre. map_of fs' s = None) \<and>
                     map_of fs' p = map_of fs p \<and> map_of fs p \<noteq> None)))"
    by blast
qed

theorem originals_after_run_witness:
  "map_of fs_abc (images_dir @ [''a.png'']) \<noteq> None \<and>
   map_of (fst (convert_images_to_webp allow_all fs_abc images_dir 82 True))
     (images_dir @ [''a.png'']) = None \<and>
   map_of (fst (convert_images_to_webp allow_all fs_abc images_dir 82 False))
     (images_dir @ [''a.png'']) = map_of fs_abc (images_dir @ [''a.png''])"
proof -
  let ?ps = "[images_dir @ [''a.png''], images_dir @ [''b.jpg''], images_dir @ [''c.jpeg'']]"
  have s: "images_dir @ [''a.png''] \<in> set ?ps" by simp
  have d: "convert_images_to_webp allow_all fs_abc images_dir 82 True =
      (fst (convert_images_to_webp allow_all fs_abc images_dir 82 True),
       Inr [(''a.png'', ''a.webp''), (''b.jpg'', ''b.webp''), (''c.jpeg'', ''c.webp'')])"
    using abc_run_delete by (simp add: prod_eq_iff)
  have k: "convert_images_to_webp allow_all fs_abc images_dir 82 False =
      (fst (convert_images_to_webp allow_all fs_abc images_dir 82 False),
       snd (convert_images_to_webp allow_all fs_abc images_dir 82 False))"
    by simp
  note td = originals_after_run [OF d abc_distinct, THEN conjunct2, rule_format,
      OF abc_sources, THEN conjunct2, THEN mp, OF TrueI, THEN conjunct2, THEN conjunct1,
      rule_format, OF refl s]
  note tk = originals_after_run [OF k abc_distinct, THEN conjunct2, rule_format,
      OF abc_sources, THEN conjunct1, THEN mp, OF not_False_eq_True [THEN iffD2, OF TrueI],
      THEN conjunct1, rule_format, OF s]
  from td tk show ?thesis by simp
qed

text \<open>
  C4 as stated fails when a deletion raises: with deletion asked for and refused by the
  operating system, the run aborts at \<open>a.png\<close> after its WEBP has been written, and the
  original, successfully converted, still exists beside \<open>a.webp\<close>.
\<close>

theorem delete_failure_counterexample:
  "snd (convert_images_to_webp no_unlink fs_abc images_dir 82 True) = Inl PermissionError \<and>
   map_of (fst (convert_images_to_webp no_unlink fs_abc images_dir 82 True))
     (images_dir @ [''a.webp'']) =
     Some (File (WebP \<lparr>mode = ''RGBA'', picture = 1, truncated = False,
                        has_transparency = True\<rparr> 82 6)) \<and>
   map_of (fst (convert_images_to_webp no_unlink fs_abc images_dir 82 True))
     (images_dir @ [''a.png'']) = Some (pic ''P'' 1)"
  by code_simp

subsection \<open>C5: the first error aborts the batch\<close>

lemma bad_run:
  "snd (convert_images_to_webp allow_all fs_bad images_dir 82 True) = Inl UnidentifiedImageError"
  by code_simp

lemma bad_distinct: "distinct (map fst fs_bad)"
  by code_simp

lemma bad_sources:
  "source_files allow_all fs_bad images_dir =
     Inr [images_dir @ [''a.png''], images_dir @ [''b.jpg''], images_dir @ [''c.jpeg'']]"
  by code_simp

text \<open>
  C5. A run of a file system that lists no path twice ends in an error exactly when the
  scan raises, and then nothing has changed, or the loop body fails on some file after
  completing on all files before it, and then the run's error and final state are that
  body's: nothing is caught, no list is returned, and \<open>main\<close> prints nothing. The body
  fails with the error of whichever call raised: the open, the conversion, the save or
  the deletion. In the state the error leaves, every file before the failing one has a
  WEBP file at its destination and is deleted if deletion was asked for (unchanged if
  not), every file after it is as it was, and so is every other path that is neither a
  file converted before nor the destination of a file converted before or of the failing
  one.
\<close>

theorem first_error_aborts:
  assumes "distinct (map fst fs)"
  shows "(convert_images_to_webp ac fs dir q del = (fs', Inl e) \<longrightarrow>
            source_files ac fs dir = Inl e \<and> fs' = fs \<or>
            (\<exists>pre p post fsk. source_files ac fs dir = Inr (pre @ p # post) \<and>
               convert_loop ac q del fs [] pre = (fsk, Inr (map pair_of pre)) \<and>
               process_file ac q del fsk p = (fs', Inl e) \<and>
               (\<forall>s\<in>set pre. (\<exists>img. map_of fs' (dest_of s) = Some (File (WebP img q 6))) \<and>
                              map_of fs' s = (if del then None else map_of fs s)) \<and>
               (\<forall>s\<in>set post. map_of fs' s = map_of fs s) \<and>
               (\<forall>x. x \<notin> dest_of ` set (pre @ [p]) \<and> x \<notin> set pre \<longrightarrow>
                    map_of fs' x = map_of fs x))) \<and>
         (source_files ac fs dir = Inl e \<longrightarrow>
            convert_images_to_webp ac fs dir q del = (fs, Inl e)) \<and>
         (\<forall>pre p post fsk a. source_files ac fs dir = Inr (pre @ p # post) \<and>
            convert_loop ac q del fs [] pre = (fsk, Inr a) \<and>
            process_file ac q del fsk p = (fs', Inl e) \<longrightarrow>
            convert_images_to_webp ac fs dir q del = (fs', Inl e)) \<and>
         (\<forall>ps p fsk. source_files ac fs dir = Inr ps \<and> p \<in> set ps \<longrightarrow>
            (image_open ac fsk p = Inl e \<longrightarrow> process_file ac q del fsk p = (fsk, Inl e)) \<and>
            (\<forall>img. image_open ac fsk p = Inr img \<and>
               (if mode img \<in> {''RGBA'', ''P''} then convert img ''RGBA''
                else convert img ''RGB'') = Inl e \<longrightarrow>
               process_file ac q del fsk p = (fsk, Inl e)) \<and>
            (\<forall>img out fs1. image_open ac fsk p = Inr img \<and>
               (if mode img \<in> {''RGBA'', ''P''} then convert img ''RGBA''
                else convert img ''RGB'') = Inr out \<and>
               save ac fsk out (dest_of p) q 6 = (fs1, Inl e) \<longrightarrow>
               process_file ac q del fsk p = (fs1, Inl e)) \<and>
            (\<forall>img out fs1. image_open ac fsk p = Inr img \<and>
               (if mode img \<in> {''RGBA'', ''P''} then convert img ''RGBA''
                else convert img ''RGB'') = Inr out \<and>
               save ac fsk out (dest_of p) q 6 = (fs1, Inr ()) \<and>
               del \<and> unlink ac fs1 p = Inl e \<longrightarrow>
               process_file ac q del fsk p = (fs1, Inl e))) \<and>
         (\<forall>m a. convert_images_to_webp ac fs dir q del = (fs', Inl e) \<and>
            resolve_root m (root a) = Inr dir \<and> quality a = q \<and> delete_original a = del \<longrightarrow>
            main m ac fs a = (fs', Inl e))"
proof -
  have c1: "source_files ac fs dir = Inl e \<and> fs' = fs \<or>
            (\<exists>pre p post fsk. source_files ac fs dir = Inr (pre @ p # post) \<and>
               convert_loop ac q del fs [] pre = (fsk, Inr (map pair_of pre)) \<and>
               process_file ac q del fsk p = (fs', Inl e) \<and>
               (\<forall>s\<in>set pre. (\<exists>img. map_of fs' (dest_of s) = Some (File (WebP img q 6))) \<and>
                              map_of fs' s = (if del then None else map_of fs s)) \<and>
               (\<forall>s\<in>set post. map_of fs' s = map_of fs s) \<and>
               (\<forall>x. x \<notin> dest_of ` set (pre @ [p]) \<and> x \<notin> set pre \<longrightarrow>
                    map_of fs' x = map_of fs x))"
    if run: "convert_images_to_webp ac fs dir q del = (fs', Inl e)"
  proof (cases "source_files ac fs dir")
    case (Inl e1)
    with run show ?thesis by (simp add: convert_images_to_webp_def)
  next
    case (Inr ps)
    have ext: "\<forall>s\<in>set ps. has_image_ext (name s)" using Inr by (rule scan_ext)
    have dist: "distinct ps" using Inr assms by (rule scan_distinct)
    from run Inr have "convert_loop ac q del fs [] ps = (fs', Inl e)"
      by (simp add: convert_images_to_webp_def)
    from loop_abort [OF this ext dist] obtain pre p post fsk where
      "ps = pre @ p # post"
      "convert_loop ac q del fs [] pre = (fsk, Inr ([] @ map pair_of pre))"
      "process_file ac q del fsk p = (fs', Inl e)"
      "\<forall>s\<in>set pre. (\<exists>img. map_of fs' (dest_of s) = Some (File (WebP img q 6))) \<and>
                     map_of fs' s = (if del then None else map_of fs s)"
      "\<forall>s\<in>set (p # post). map_of fs' s = map_of fs s"
      "\<forall>x. x \<notin> dest_of ` set (pre @ [p]) \<and> x \<notin> set pre \<longrightarrow> map_of fs' x = map_of fs x"
      by blast
    with Inr have "source_files ac fs dir = Inr (pre @ p # post) \<and>
               convert_loop ac q del fs [] pre = (fsk, Inr (map pair_of pre)) \<and>
               process_file ac q del fsk p = (fs', Inl e) \<and>
               (\<forall>s\<in>set pre. (\<exists>img. map_of fs' (dest_of s) = Some (File (WebP img q 6))) \<and>
                              map_of fs' s = (if del then None else map_of fs s)) \<and>
               (\<forall>s\<in>set post. map_of fs' s = map_of fs s) \<and>
               (\<forall>x. x \<notin> dest_of ` set (pre @ [p]) \<and> x \<notin> set pre \<longrightarrow>
                    map_of fs' x = map_of fs x)" by simp
    then have "\<exists>pre p post fsk. source_files ac fs dir = Inr (pre @ p # post) \<and>
               convert_loop ac q del fs [] pre = (fsk, Inr (map pair_of pre)) \<and>
               process_file ac q del fsk p = (fs', Inl e) \<and>
               (\<forall>s\<in>set pre. (\<exists>img. map_of fs' (dest_of s) = Some (File (WebP img q 6))) \<and>
                              map_of fs' s = (if del then None else map_of fs s)) \<and>
               (\<forall>s\<in>set post. map_of fs' s = map_of fs s) \<and>
               (\<forall>x. x \<notin> dest_of ` set (pre @ [p]) \<and> x \<notin> set pre \<longrightarrow>
                    map_of fs' x = map_of fs x)" by blast
    then show ?thesis ..
  qed
  have c2: "source_files ac fs dir = Inl e \<longrightarrow>
            convert_images_to_webp ac fs dir q del = (fs, Inl e)"
    by (simp add: convert_images_to_webp_def)
  have c3: "\<forall>pre p post fsk a. source_files ac fs dir = Inr (pre @ p # post) \<and>
            convert_loop ac q del fs [] pre = (fsk, Inr a) \<and>
            process_file ac q del fsk p = (fs', Inl e) \<longrightarrow>
            convert_images_to_webp ac fs dir q del = (fs', Inl e)"
    by (simp add: convert_images_to_webp_def loop_append)
  have c4: "(image_open ac fsk p = Inl e \<longrightarrow> process_file ac q del fsk p = (fsk, Inl e)) \<and>
            (\<forall>img. image_open ac fsk p = Inr img \<and>
               (if mode img \<in> {''RGBA'', ''P''} then convert img ''RGBA''
                else convert img ''RGB'') = Inl e \<longrightarrow>
               process_file ac q del fsk p = (fsk, Inl e)) \<and>
            (\<forall>img out fs1. image_open ac fsk p = Inr img \<and>
               (if mode img \<in> {''RGBA'', ''P''} then convert img ''RGBA''
                else convert img ''RGB'') = Inr out \<and>
               save ac fsk out (dest_of p) q 6 = (fs1, Inl e) \<longrightarrow>
               process_file ac q del fsk p = (fs1, Inl e)) \<and>
            (\<forall>img out fs1. image_open ac fsk p = Inr img \<and>
               (if mode img \<in> {''RGBA'', ''P''} then convert img ''RGBA''
                else convert img ''RGB'') = Inr out \<and>
               save ac fsk out (dest_of p) q 6 = (fs1, Inr ()) \<and>
               del \<and> unlink ac fs1 p = Inl e \<longrightarrow>
               process_file ac q del fsk p = (fs1, Inl e))"
    if "source_files ac fs dir = Inr ps \<and> p \<in> set ps" for ps p fsk
  proof -
    from that scan_ext [of ac fs dir ps] have "has_image_ext (name p)" by blast
    then have "name p \<noteq> []" using has_image_ext_last by blast
    then show ?thesis by (rule process_file_raises)
  qed
  have c5: "\<forall>m a. convert_images_to_webp ac fs dir q del = (fs', Inl e) \<and>
            resolve_root m (root a) = Inr dir \<and> quality a = q \<and> delete_original a = del \<longrightarrow>
            main m ac fs a = (fs', Inl e)"
    by (simp add: main_def)
  from c1 c2 c3 c4 c5 show ?thesis by (intro conjI impI allI) blast+
qed

theorem first_error_aborts_witness:
  "\<exists>pre p post fsk. source_files allow_all fs_bad images_dir = Inr (pre @ p # post) \<and>
     convert_loop allow_all 82 True fs_bad [] pre = (fsk, Inr (map pair_of pre)) \<and>
     process_file allow_all 82 True fsk p =
       (fst (convert_images_to_webp allow_all fs_bad images_dir 82 True),
        Inl UnidentifiedImageError) \<and>
     (\<forall>s\<in>set pre.
        (\<exists>img. map_of (fst (convert_images_to_webp allow_all fs_bad images_dir 82 True))
                 (dest_of s) = Some (File (WebP img 82 6))) \<and>
        map_of (fst (convert_images_to_webp allow_all fs_bad images_dir 82 True)) s = None) \<and>
     (\<forall>s\<in>set post.
        map_of (fst (convert_images_to_webp allow_all fs_bad images_dir 82 True)) s =
        map_of fs_bad s) \<and>
     (\<forall>x. x \<notin> dest_of ` set (pre @ [p]) \<and> x \<notin> set pre \<longrightarrow>
        map_of (fst (convert_images_to_webp allow_all fs_bad images_dir 82 True)) x =
        map_of fs_bad x)"
proof -
  have r: "convert_images_to_webp allow_all fs_bad images_dir 82 True =
      (fst (convert_images_to_webp allow_all fs_bad images_dir 82 True), Inl UnidentifiedImageError)"
    using bad_run by (simp add: prod_eq_iff)
  have n: "source_files allow_all fs_bad images_dir \<noteq> Inl UnidentifiedImageError"
    unfolding bad_sources by simp
  from first_error_aborts [OF bad_distinct, THEN conjunct1, THEN mp, OF r] n
  show ?thesis by simp
qed

subsection \<open>C6: the root directory\<close>











subsection \<open>C7: what main prints\<close>

lemma ex_root: "resolve_root ex_machine (Some ''/srv/images'') = Inr images_dir"
  by code_simp

lemma abc_lines:
  "map (\<lambda>pr. fst pr @ '' -> '' @ snd pr)
     [(''a.png'', ''a.webp''), (''b.jpg'', ''b.webp''), (''c.jpeg'', ''c.webp'')] @
   [''converted: '' @ str_nat (length
     [(''a.png'', ''a.webp''), (''b.jpg'', ''b.webp''), (''c.jpeg'', ''c.webp'')])] =
   [''a.png -> a.webp'', ''b.jpg -> b.webp'', ''c.jpeg -> c.webp'', ''converted: 3'']"
  by code_simp

text \<open>
  C7. When the root resolves and the converter returns a list of pairs, \<open>main\<close> prints
  one line \<open>source -> destination\<close> per pair, in the order of the list, and then the
  line \<open>converted: n\<close>, where \<open>n\<close> is the length of the list in decimal digits; when
  the scan finds no file, the output is the single line \<open>converted: 0\<close>.
\<close>

theorem main_output:
  assumes "resolve_root m (root a) = Inr dir"
    and "convert_images_to_webp ac fs dir (quality a) (delete_original a) = (fs', Inr res)"
  shows "main m ac fs a =
           (fs', Inr (map (\<lambda>pr. fst pr @ '' -> '' @ snd pr) res @
                      [''converted: '' @ str_nat (length res)])) \<and>
         decimal_value (str_nat (length res)) = length res \<and>
         set (str_nat (length res)) \<subseteq> set ''0123456789'' \<and>
         (source_files ac fs dir = Inr [] \<longrightarrow> main m ac fs a = (fs, Inr [''converted: 0'']))"
proof (intro conjI impI)
  show r: "main m ac fs a =
           (fs', Inr (map (\<lambda>pr. fst pr @ '' -> '' @ snd pr) res @
                      [''converted: '' @ str_nat (length res)]))"
    using assms by (simp add: main_def print_line_def [abs_def])
  show "decimal_value (str_nat (length res)) = length res"
    by (rule decimal_value_str_nat)
  show "set (str_nat (length res)) \<subseteq> set ''0123456789''"
    by (rule str_nat_digits)
  assume "source_files ac fs dir = Inr []"
  with assms(2) have "fs' = fs" "res = []"
    by (simp_all add: convert_images_to_webp_def)
  with r show "main m ac fs a = (fs, Inr [''converted: 0''])" by (simp add: str_nat_0)
qed

theorem main_output_witness:
  "snd (main ex_machine allow_all fs_abc
          \<lparr>root = Some ''/srv/images'', quality = 82, delete_original = False\<rparr>) =
     Inr [''a.png -> a.webp'', ''b.jpg -> b.webp'', ''c.jpeg -> c.webp'', ''converted: 3'']"
proof -
  let ?a = "\<lparr>root = Some ''/srv/images'', quality = 82, delete_original = False\<rparr>"
  have r: "resolve_root ex_machine (root ?a) = Inr images_dir" using ex_root by simp
  have c: "convert_images_to_webp allow_all fs_abc images_dir (quality ?a) (delete_original ?a) =
      (fst (convert_images_to_webp allow_all fs_abc images_dir 82 False),
       Inr [(''a.png'', ''a.webp''), (''b.jpg'', ''b.webp''), (''c.jpeg'', ''c.webp'')])"
    using abc_run_keep by (simp add: prod_eq_iff)
  from main_output [OF r c] show ?thesis unfolding abc_lines by simp
qed

subsection \<open>C8: a quality the encoder refuses\<close>

lemma abc_a_open:
  "image_open allow_all fs_abc (images_dir @ [''a.png'']) =
     Inr \<lparr>mode = ''P'', picture = 1, truncated = False, has_transparency = True\<rparr>"
  by code_simp

lemma abc_a_convert:
  "(if mode \<lparr>mode = ''P'', picture = 1, truncated = False, has_transparency = True\<rparr>
        \<in> {''RGBA'', ''P''}
    then convert \<lparr>mode = ''P'', picture = 1, truncated = False, has_transparency = True\<rparr> ''RGBA''
    else convert \<lparr>mode = ''P'', picture = 1, truncated = False, has_transparency = True\<rparr> ''RGB'') =
     Inr \<lparr>mode = ''RGBA'', picture = 1, truncated = False, has_transparency = True\<rparr>"
  by code_simp

lemma abc_a_save:
  "save allow_all fs_abc
     \<lparr>mode = ''RGBA'', picture = 1, truncated = False, has_transparency = True\<rparr>
     (dest_of (images_dir @ [''a.png''])) 101 6 = (fs_abc, Inl ValueError)"
  by code_simp

lemma abc_a_writable:
  "map_of fs_abc (dest_of (images_dir @ [''a.png''])) \<noteq> Some Dir \<and>
   may_write allow_all (dest_of (images_dir @ [''a.png'']))"
  by code_simp

lemma no_overflow_101: "\<not> float_overflows 101"
  by code_simp

text \<open>
  C8, as the code has it. The program never compares the quality with anything: it
  hands it to the save of each file. So with a quality the encoder refuses, a run whose
  scan finds no file returns the empty list, without an error; a run whose scan finds a
  file ends in an error at the first file in sorted order, with no source file changed;
  and when that first file opens, its pixels load and its destination can be opened for
  writing, the error is raised by the save: the encoder's \<open>ValueError\<close>, or
  \<open>OverflowError\<close> for a quality too large to become a float.
\<close>

theorem quality_out_of_range:
  assumes "\<not> webp_quality_ok q"
  shows "(source_files ac fs dir = Inr [] \<longrightarrow>
            convert_images_to_webp ac fs dir q del = (fs, Inr [])) \<and>
         (\<forall>p ps. source_files ac fs dir = Inr (p # ps) \<longrightarrow>
            (\<exists>fs' e. convert_images_to_webp ac fs dir q del = (fs', Inl e) \<and>
                      process_file ac q del fs p = (fs', Inl e) \<and>
                      (\<forall>s\<in>set (p # ps). map_of fs' s = map_of fs s)) \<and>
            (\<forall>img out. image_open ac fs p = Inr img \<and>
                    (if mode img \<in> {''RGBA'', ''P''} then convert img ''RGBA''
                     else convert img ''RGB'') = Inr out \<and>
                    map_of fs (dest_of p) \<noteq> Some Dir \<and> may_write ac (dest_of p) \<longrightarrow>
               (\<exists>fs'. save ac fs out (dest_of p) q 6 =
                         (fs', Inl (if float_overflows q then OverflowError else ValueError)) \<and>
                       convert_images_to_webp ac fs dir q del =
                         (fs', Inl (if float_overflows q then OverflowError else ValueError)))))"
proof -
  have c1: "source_files ac fs dir = Inr [] \<longrightarrow>
            convert_images_to_webp ac fs dir q del = (fs, Inr [])"
    by (simp add: convert_images_to_webp_def)
  have c2: "\<exists>fs' e. convert_images_to_webp ac fs dir q del = (fs', Inl e) \<and>
                      process_file ac q del fs p = (fs', Inl e) \<and>
                      (\<forall>s\<in>set (p # ps). map_of fs' s = map_of fs s)"
    if sp: "source_files ac fs dir = Inr (p # ps)" for p ps
  proof -
    obtain fs' r where st: "process_file ac q del fs p = (fs', r)"
      by (cases "process_file ac q del fs p") auto
    have "\<exists>e. r = Inl e"
    proof (cases r)
      case (Inr pr)
      with st process_file_ok [of ac q del fs p fs' pr] assms show ?thesis by blast
    qed simp
    then obtain e where r: "r = Inl e" ..
    with st sp have run: "convert_images_to_webp ac fs dir q del = (fs', Inl e)"
      by (simp add: convert_images_to_webp_def)
    have "map_of fs' s = map_of fs s" if "s \<in> set (p # ps)" for s
    proof -
      from that scan_ext [OF sp] have "has_image_ext (name s)" by blast
      then have "s \<noteq> dest_of p" using image_ext_not_dest by blast
      with process_file_fail [of ac q del fs p fs' e] st r show ?thesis by simp
    qed
    with run st r show ?thesis by blast
  qed
  have c3: "\<exists>fs'. save ac fs out (dest_of p) q 6 =
                         (fs', Inl (if float_overflows q then OverflowError else ValueError)) \<and>
                       convert_images_to_webp ac fs dir q del =
                         (fs', Inl (if float_overflows q then OverflowError else ValueError))"
    if sp: "source_files ac fs dir = Inr (p # ps)"
      and a: "image_open ac fs p = Inr img \<and>
              (if mode img \<in> {''RGBA'', ''P''} then convert img ''RGBA''
               else convert img ''RGB'') = Inr out \<and>
              map_of fs (dest_of p) \<noteq> Some Dir \<and> may_write ac (dest_of p)"
    for p ps img out
  proof -
    let ?e = "if float_overflows q then OverflowError else ValueError"
    obtain fs1 where sv: "save ac fs out (dest_of p) q 6 = (fs1, Inl ?e)"
      using a assms by (simp add: save_def)
    from scan_ext [OF sp] have "has_image_ext (name p)" by simp
    then have "name p \<noteq> []" using has_image_ext_last by blast
    note pr = process_file_raises [OF this, of ac fs ?e q del, THEN conjunct2, THEN conjunct2,
        THEN conjunct1, rule_format, of img out fs1]
    from a sv have "process_file ac q del fs p = (fs1, Inl ?e)" by (intro pr) simp
    with sp have "convert_images_to_webp ac fs dir q del = (fs1, Inl ?e)"
      by (simp add: convert_images_to_webp_def)
    with sv show ?thesis by blast
  qed
  from c1 c2 c3 show ?thesis by (intro conjI allI impI) blast+
qed

theorem quality_out_of_range_witness:
  "\<not> webp_quality_ok 101 \<and>
   convert_images_to_webp allow_all fs_abc images_dir 101 True = (fs_abc, Inl ValueError)"
proof -
  have q: "\<not> webp_quality_ok 101" by (simp add: webp_quality_ok_def)
  let ?img = "\<lparr>mode = ''P'', picture = 1, truncated = False, has_transparency = True\<rparr>"
  let ?out = "\<lparr>mode = ''RGBA'', picture = 1, truncated = False, has_transparency = True\<rparr>"
  have h: "image_open allow_all fs_abc (images_dir @ [''a.png'']) = Inr ?img \<and>
        (if mode ?img \<in> {''RGBA'', ''P''} then convert ?img ''RGBA''
         else convert ?img ''RGB'') = Inr ?out \<and>
        map_of fs_abc (dest_of (images_dir @ [''a.png''])) \<noteq> Some Dir \<and>
        may_write allow_all (dest_of (images_dir @ [''a.png'']))"
    using abc_a_open abc_a_convert abc_a_writable by blast
  note t = quality_out_of_range [OF q, of allow_all fs_abc images_dir True,
      THEN conjunct2, rule_format, OF abc_sources, THEN conjunct2, rule_format, OF h]
  then obtain fs' where
    "save allow_all fs_abc ?out (dest_of (images_dir @ [''a.png''])) 101 6 =
       (fs', Inl (if float_overflows 101 then OverflowError else ValueError))"
    and run: "convert_images_to_webp allow_all fs_abc images_dir 101 True =
       (fs', Inl (if float_overflows 101 then OverflowError else ValueError))"
    by blast
  then have "fs' = fs_abc" unfolding abc_a_save by simp
  with q run no_overflow_101 show ?thesis by simp
qed

text \<open>
  C8 as stated fails on a directory with no matching file: quality 101 is outside the
  accepted range, and the run over the empty directory returns normally, with the empty
  list.
\<close>

theorem quality_unchecked_counterexample:
  "\<not> webp_quality_ok 101 \<and>
   convert_images_to_webp allow_all fs_empty images_dir 101 False = (fs_empty, Inr [])"
  by code_simp

subsection \<open>C9: the scan is deterministic\<close>

text \<open>
  C9. The scan reads the directory and changes nothing, and its result does not depend
  on the order in which the operating system lists the entries: two listings of the same
  directory state (the same entries, each once) give the same result, the same sorted
  list of files or the same error.
\<close>

theorem discovery_deterministic:
  assumes "distinct (map fst fs)" "distinct (map fst fs')" "set fs = set fs'"
  shows "source_files ac fs dir = source_files ac fs' dir \<and>
         (\<forall>ps. source_files ac fs dir = Inr ps \<longrightarrow> sorted ps)"
  using scan_listing [OF assms] scan_sorted by blast

theorem discovery_deterministic_witness:
  "source_files allow_all fs_abc images_dir = source_files allow_all (rev fs_abc) images_dir \<and>
   sorted [images_dir @ [''a.png''], images_dir @ [''b.jpg''], images_dir @ [''c.jpeg'']] \<and>
   rev fs_abc \<noteq> fs_abc"
proof -
  have d: "distinct (map fst (rev fs_abc))" using abc_distinct by (simp add: rev_map [symmetric])
  have s: "set fs_abc = set (rev fs_abc)" by simp
  have n: "rev fs_abc \<noteq> fs_abc" by (simp add: fs_abc_def)
  note t = discovery_deterministic [OF abc_distinct d s, of allow_all images_dir]
  from t [THEN conjunct2] abc_sources
  have "sorted [images_dir @ [''a.png''], images_dir @ [''b.jpg''], images_dir @ [''c.jpeg'']]"
    by blast
  with t [THEN conjunct1] n show ?thesis by simp
qed

subsection \<open>C10: two sources with one destination\<close>

lemma sorted_split_before:
  assumes "sorted (pre @ x # post)" "distinct (pre @ x # post)"
  shows "(\<forall>s\<in>set pre. s < x) \<and> (\<forall>s\<in>set post. x < s)"
  using assms by (auto simp: sorted_append order_less_le)

lemma twins_run:
  "snd (convert_images_to_webp allow_all fs_twins images_dir 82 True) =
     Inr [(''a.jpeg'', ''a.webp''), (''a.jpg'', ''a.webp''), (''a.png'', ''a.webp'')]"
  by code_simp

lemma twins_sources:
  "source_files allow_all fs_twins images_dir =
     Inr [images_dir @ [''a.jpeg''], images_dir @ [''a.jpg''], images_dir @ [''a.png'']]"
  by code_simp

lemma twins_distinct: "distinct (map fst fs_twins)"
  by code_simp

lemma twins_open:
  "image_open allow_all fs_twins (images_dir @ [''a.png'']) =
     Inr \<lparr>mode = ''RGBA'', picture = 1, truncated = False, has_transparency = True\<rparr>"
  by code_simp

lemma twins_order: "images_dir @ [''a.jpg''] < images_dir @ [''a.png'']"
  by code_simp

lemma twins_stem: "stem (images_dir @ [''a.jpg'']) = stem (images_dir @ [''a.png''])"
  by code_simp

lemma twins_last:
  "\<forall>s\<in>set [images_dir @ [''a.jpeg''], images_dir @ [''a.jpg''], images_dir @ [''a.png'']].
     images_dir @ [''a.png''] < s \<longrightarrow> stem s \<noteq> stem (images_dir @ [''a.jpg''])"
  by code_simp

lemma twins_dest: "dest_of (images_dir @ [''a.jpg'']) = images_dir @ [''a.webp'']"
  by code_simp

lemma twins_webp:
  "webp_file \<lparr>mode = ''RGBA'', picture = 1, truncated = False, has_transparency = True\<rparr> 82 =
     File (WebP \<lparr>mode = ''RGBA'', picture = 1, truncated = False, has_transparency = True\<rparr> 82 6)"
  by code_simp

text \<open>
  C10. Any two source files \<open>s1\<close> and \<open>s2\<close> the scan finds with the same stem,
  \<open>s1\<close> before \<open>s2\<close> in the sorted order, differ in their extension and have the same
  destination, the sibling \<open>stem.webp\<close>. When the run returns, its list holds both
  pairs, that of \<open>s1\<close> before that of \<open>s2\<close>, with the same destination name. When the
  loop reaches \<open>s2\<close> the destination already holds a WEBP file, the conversion of \<open>s1\<close>
  when no file between the two has the same stem; the body then succeeds on \<open>s2\<close>,
  without any error, and leaves the conversion of \<open>s2\<close> there instead; and that is what
  the destination holds at the end of the run when no later file has the same stem.
\<close>

theorem shared_stem_overwrite:
  assumes "convert_images_to_webp ac fs dir q del = (fs', Inr res)"
    and "distinct (map fst fs)"
    and "source_files ac fs dir = Inr ps"
    and "s1 \<in> set ps" and "s2 \<in> set ps" and "s1 < s2" and "stem s1 = stem s2"
  shows "suffix_of s1 \<noteq> suffix_of s2 \<and>
         with_suffix s1 ''.webp'' = Inr (dest_of s1) \<and>
         with_suffix s2 ''.webp'' = Inr (dest_of s1) \<and>
         (\<exists>i j. i < j \<and> j < length res \<and> res ! i = (name s1, stem s1 @ ''.webp'') \<and>
                 res ! j = (name s2, stem s1 @ ''.webp'')) \<and>
         (\<exists>img1 img2 pre post fsk fs1.
            ps = pre @ s2 # post \<and> s1 \<in> set pre \<and>
            image_open ac fs s1 = Inr img1 \<and> image_open ac fs s2 = Inr img2 \<and>
            convert_loop ac q del fs [] pre = (fsk, Inr (map pair_of pre)) \<and>
            process_file ac q del fsk s2 = (fs1, Inr (pair_of s2)) \<and>
            (\<exists>w. map_of fsk (dest_of s1) = Some (File (WebP w q 6))) \<and>
            ((\<forall>s\<in>set ps. s1 < s \<and> s < s2 \<longrightarrow> stem s \<noteq> stem s1) \<longrightarrow>
               map_of fsk (dest_of s1) = Some (webp_file img1 q)) \<and>
            map_of fs1 (dest_of s1) = Some (webp_file img2 q)) \<and>
         (\<exists>img2. image_open ac fs s2 = Inr img2 \<and>
            ((\<forall>s\<in>set ps. s2 < s \<longrightarrow> stem s \<noteq> stem s1) \<longrightarrow>
               map_of fs' (dest_of s1) = Some (webp_file img2 q)))"
proof -
  note sc = assms(3)
  from assms(1) sc have run: "convert_loop ac q del fs [] ps = (fs', Inr res)"
    by (simp add: convert_images_to_webp_def)
  have ext: "\<forall>s\<in>set ps. has_image_ext (name s)" using sc by (rule scan_ext)
  have srt: "sorted ps" using sc by (rule scan_sorted)
  have dist: "distinct ps" using sc assms(2) by (rule scan_distinct)
  have ent: "s \<noteq> [] \<and> butlast s = dir" if "s \<in> set ps" for s
    using scan_entries [OF sc that] by simp
  note e1 = ent [OF assms(4)] and e2 = ent [OF assms(5)]
  have n1: "name s1 \<noteq> []" and n2: "name s2 \<noteq> []"
    using ext assms(4,5) has_image_ext_last by blast+
  have sd: "dest_of s = dest_of s1 \<longleftrightarrow> stem s = stem s1" if "s \<in> set ps" for s
    using dest_of_eq [of s s1] ent [OF that] e1 by simp
  from sd [OF assms(5)] assms(7) have d12: "dest_of s2 = dest_of s1" by simp
  have a: "suffix_of s1 \<noteq> suffix_of s2"
  proof
    assume "suffix_of s1 = suffix_of s2"
    with assms(7) have "name s1 = name s2" by (simp add: name_stem_suffix)
    with path_split [of s1 dir] path_split [of s2 dir] e1 e2 have "s1 = s2" by simp
    with assms(6) show False by simp
  qed
  have b: "with_suffix s1 ''.webp'' = Inr (dest_of s1)" "with_suffix s2 ''.webp'' = Inr (dest_of s1)"
    using n1 n2 d12 by (simp_all add: with_suffix_webp)
  from assms(5) obtain pre post where ps: "ps = pre @ s2 # post" by (auto dest: split_list)
  from sorted_split_before [of pre s2 post] srt dist ps
  have bef: "\<forall>s\<in>set pre. s < s2" and aft: "\<forall>s\<in>set post. s2 < s" by simp_all
  have s1pre: "s1 \<in> set pre"
  proof -
    from assms(4) ps assms(6) have "s1 \<in> set pre \<or> s1 \<in> set post" by auto
    moreover from aft assms(6) have "s1 \<notin> set post" by auto
    ultimately show ?thesis by simp
  qed
  from run ps have run2: "convert_loop ac q del fs [] (pre @ s2 # post) = (fs', Inr res)" by simp
  from ext ps have ext2: "\<forall>s\<in>set (pre @ s2 # post). has_image_ext (name s)" by simp
  from loop_step_at [OF run2 ext2] obtain fsk fs1 img2 where
    k: "convert_loop ac q del fs [] pre = (fsk, Inr (map pair_of pre))"
    and st: "process_file ac q del fsk s2 = (fs1, Inr (pair_of s2))"
    and o2: "image_open ac fs s2 = Inr img2"
    and w1: "map_of fs1 (dest_of s2) = Some (webp_file img2 q)"
    and wf: "dest_of s2 \<notin> dest_of ` set post \<longrightarrow> map_of fs' (dest_of s2) = Some (webp_file img2 q)"
    by auto
  from s1pre obtain pre1 post1 where pre: "pre = pre1 @ s1 # post1" by (auto dest: split_list)
  from srt dist ps have "sorted pre" "distinct pre" by (simp_all add: sorted_append)
  with sorted_split_before [of pre1 s1 post1] pre
  have aft1: "\<forall>s\<in>set post1. s1 < s" by simp
  from ext ps have epre: "\<forall>s\<in>set pre. has_image_ext (name s)" by simp
  from k pre have k2: "convert_loop ac q del fs [] (pre1 @ s1 # post1) = (fsk, Inr (map pair_of pre))"
    by simp
  from epre pre have epre2: "\<forall>s\<in>set (pre1 @ s1 # post1). has_image_ext (name s)" by simp
  from loop_step_at [OF k2 epre2] obtain img1 where
    o1: "image_open ac fs s1 = Inr img1"
    and wk: "dest_of s1 \<notin> dest_of ` set post1 \<longrightarrow> map_of fsk (dest_of s1) = Some (webp_file img1 q)"
    by auto
  from loop_success [OF k epre s1pre]
  have wx: "\<exists>w. map_of fsk (dest_of s1) = Some (File (WebP w q 6))" by simp
  have between: "map_of fsk (dest_of s1) = Some (webp_file img1 q)"
    if h: "\<forall>s\<in>set ps. s1 < s \<and> s < s2 \<longrightarrow> stem s \<noteq> stem s1"
  proof -
    have "dest_of s \<noteq> dest_of s1" if s: "s \<in> set post1" for s
    proof -
      from s pre ps have m: "s \<in> set ps" "s \<in> set pre" by auto
      with aft1 bef s h have "stem s \<noteq> stem s1" by blast
      with sd [OF m(1)] show ?thesis by simp
    qed
    then have "dest_of s1 \<notin> dest_of ` set post1" by (metis imageE)
    with wk show ?thesis by simp
  qed
  have final: "map_of fs' (dest_of s1) = Some (webp_file img2 q)"
    if h: "\<forall>s\<in>set ps. s2 < s \<longrightarrow> stem s \<noteq> stem s1"
  proof -
    have "dest_of s \<noteq> dest_of s1" if s: "s \<in> set post" for s
    proof -
      from s ps have m: "s \<in> set ps" by auto
      with aft s h have "stem s \<noteq> stem s1" by blast
      with sd [OF m] show ?thesis by simp
    qed
    then have "dest_of s2 \<notin> dest_of ` set post" using d12 by (metis imageE)
    with wf d12 show ?thesis by simp
  qed
  have c: "\<exists>i j. i < j \<and> j < length res \<and> res ! i = (name s1, stem s1 @ ''.webp'') \<and>
                 res ! j = (name s2, stem s1 @ ''.webp'')"
  proof -
    from loop_result [OF run] have r: "res = map pair_of ps" by simp
    let ?i = "length pre1" and ?j = "length pre"
    from pre have ij: "?i < ?j" by simp
    from r ps have jl: "?j < length res" by simp
    from r ps pre have "res ! ?i = pair_of s1"
      by (simp add: nth_append)
    moreover from r ps have "res ! ?j = pair_of s2"
      by (simp add: nth_append)
    ultimately have "?i < ?j \<and> ?j < length res \<and> res ! ?i = (name s1, stem s1 @ ''.webp'') \<and>
                 res ! ?j = (name s2, stem s1 @ ''.webp'')"
      using ij jl assms(7) by (simp add: pair_of_def)
    then show ?thesis by blast
  qed
  have d: "\<exists>img1 img2 pre post fsk fs1.
            ps = pre @ s2 # post \<and> s1 \<in> set pre \<and>
            image_open ac fs s1 = Inr img1 \<and> image_open ac fs s2 = Inr img2 \<and>
            convert_loop ac q del fs [] pre = (fsk, Inr (map pair_of pre)) \<and>
            process_file ac q del fsk s2 = (fs1, Inr (pair_of s2)) \<and>
            (\<exists>w. map_of fsk (dest_of s1) = Some (File (WebP w q 6))) \<and>
            ((\<forall>s\<in>set ps. s1 < s \<and> s < s2 \<longrightarrow> stem s \<noteq> stem s1) \<longrightarrow>
               map_of fsk (dest_of s1) = Some (webp_file img1 q)) \<and>
            map_of fs1 (dest_of s1) = Some (webp_file img2 q)"
  proof -
    from ps s1pre o1 o2 k st wx between w1 d12
    have "ps = pre @ s2 # post \<and> s1 \<in> set pre \<and>
            image_open ac fs s1 = Inr img1 \<and> image_open ac fs s2 = Inr img2 \<and>
            convert_loop ac q del fs [] pre = (fsk, Inr (map pair_of pre)) \<and>
            process_file ac q del fsk s2 = (fs1, Inr (pair_of s2)) \<and>
            (\<exists>w. map_of fsk (dest_of s1) = Some (File (WebP w q 6))) \<and>
            ((\<forall>s\<in>set ps. s1 < s \<and> s < s2 \<longrightarrow> stem s \<noteq> stem s1) \<longrightarrow>
               map_of fsk (dest_of s1) = Some (webp_file img1 q)) \<and>
            map_of fs1 (dest_of s1) = Some (webp_file img2 q)"
      by simp
    then show ?thesis by (intro exI)
  qed
  have e: "\<exists>img2. image_open ac fs s2 = Inr img2 \<and>
            ((\<forall>s\<in>set ps. s2 < s \<longrightarrow> stem s \<noteq> stem s1) \<longrightarrow>
               map_of fs' (dest_of s1) = Some (webp_file img2 q))"
    using o2 final by blast
  from a b c d e show ?thesis by (intro conjI)
qed

theorem shared_stem_overwrite_witness:
  "map_of (fst (convert_images_to_webp allow_all fs_twins images_dir 82 True))
     (images_dir @ [''a.webp'']) =
     Some (File (WebP \<lparr>mode = ''RGBA'', picture = 1, truncated = False,
                        has_transparency = True\<rparr> 82 6))"
proof -
  let ?ps = "[images_dir @ [''a.jpeg''], images_dir @ [''a.jpg''], images_dir @ [''a.png'']]"
  have r: "convert_images_to_webp allow_all fs_twins images_dir 82 True =
      (fst (convert_images_to_webp allow_all fs_twins images_dir 82 True),
       Inr [(''a.jpeg'', ''a.webp''), (''a.jpg'', ''a.webp''), (''a.png'', ''a.webp'')])"
    using twins_run by (simp add: prod_eq_iff)
  have m1: "images_dir @ [''a.jpg''] \<in> set ?ps" and m2: "images_dir @ [''a.png''] \<in> set ?ps"
    by simp_all
  note t = shared_stem_overwrite [OF r twins_distinct twins_sources m1 m2 twins_order twins_stem,
      THEN conjunct2, THEN conjunct2, THEN conjunct2, THEN conjunct2, THEN conjunct2]
  then obtain img2 where
    o: "image_open allow_all fs_twins (images_dir @ [''a.png'']) = Inr img2"
    and f: "(\<forall>s\<in>set ?ps. images_dir @ [''a.png''] < s \<longrightarrow>
               stem s \<noteq> stem (images_dir @ [''a.jpg''])) \<longrightarrow>
            map_of (fst (convert_images_to_webp allow_all fs_twins images_dir 82 True))
              (dest_of (images_dir @ [''a.jpg''])) = Some (webp_file img2 82)"
    by blast
  from o have i: "img2 = \<lparr>mode = ''RGBA'', picture = 1, truncated = False, has_transparency = True\<rparr>"
    unfolding twins_open by simp
  from f [THEN mp, OF twins_last] show ?thesis unfolding i twins_dest twins_webp .
qed

end
